theory Spec2Isabelle
  imports
    Complex_Main
    "HOL-Library.Multiset"
    "HOL-Library.Sublist"
    "HOL-Library.Product_Lexorder"
begin

section \<open>Values, errors and the message model (core/message\_types.py)\<close>

text \<open>
  The values a \<open>Dict[str, Any]\<close> field holds are modelled by the JSON-like universe
  below; a dictionary is an association list in insertion order. Time is a real number
  of seconds since the epoch, for \<open>time.time()\<close> and for \<open>datetime\<close> values alike
  (floating-point rounding and the microsecond grid are not modelled; timestamps are
  timezone-aware instants, as the default factory of \<open>timestamp\<close> makes them).
\<close>

datatype py_value =
    PNone
  | PBool bool
  | PInt int
  | PFloat real
  | PStr string
  | PDatetime real
  | PList "py_value list"
  | PDict "(string \<times> py_value) list"

type_synonym py_dict = "(string \<times> py_value) list"

text \<open>
  The rules \<open>MessageValidator.validate_message\<close> reports, one constructor per message
  string of the source, in the order the source appends them.
\<close>

datatype validation_error =
    SizeExceeded nat
  | SizeFailed
  | HasExpired
  | MissingSender
  | MissingRecipient
  | MissingRequestId
  | MissingErrorCode

datatype error =
    QueueOverflowError
  | MessageCorruptionError "validation_error list"
  | TypeError
  | IndexError
  | ValueError string

datatype MessagePriority = CRITICAL | HIGH | NORMAL | LOW | DEFERRED

fun priority_value :: "MessagePriority \<Rightarrow> int" where
  "priority_value CRITICAL = 1"
| "priority_value HIGH = 2"
| "priority_value NORMAL = 3"
| "priority_value LOW = 4"
| "priority_value DEFERRED = 5"

datatype MessageType =
  AGENT_REQUEST | AGENT_RESPONSE | ERROR | STATUS | CONTEXT | HEARTBEAT | CONTROL

fun MessageType_value :: "MessageType \<Rightarrow> string" where
  "MessageType_value AGENT_REQUEST = ''agent_request''"
| "MessageType_value AGENT_RESPONSE = ''agent_response''"
| "MessageType_value ERROR = ''error''"
| "MessageType_value STATUS = ''status''"
| "MessageType_value CONTEXT = ''context''"
| "MessageType_value HEARTBEAT = ''heartbeat''"
| "MessageType_value CONTROL = ''control''"

text \<open>
  The class of a message and the fields its class adds to the envelope:
  \<open>StandardMessage\<close> itself adds none; the arguments of the other constructors are the
  fields of the subclass in the order the source declares them
  (\<open>AgentRequest\<close>: action, payload, requires\_response, timeout;
  \<open>AgentResponse\<close>: request\_id, status\_code, result, error, processing\_time\_ms;
  \<open>ErrorMessage\<close>: error\_code, error\_type, error\_message, stack\_trace, context,
  recoverable;
  \<open>StatusMessage\<close>: status, component, health\_score, metrics, details;
  \<open>ContextMessage\<close>: context\_type, context\_data, version, merge\_strategy,
  expires\_at).
\<close>

datatype message_class =
    StandardOnly
  | AgentRequest string py_dict bool int
  | AgentResponse string int "py_dict option" "py_dict option" "real option"
  | ErrorMessage string string string "string option" py_dict bool
  | StatusMessage string string real py_dict py_dict
  | ContextMessage string py_dict int string "real option"

record StandardMessage =
  msg_id :: string
  msg_type :: MessageType
  sender :: string
  recipient :: "string option"
  timestamp :: real
  priority :: MessagePriority
  ttl :: "int option"
  correlation_id :: "string option"
  metadata :: py_dict
  retry_count :: int
  max_retries :: int
  kind :: message_class

text \<open>\<open>StandardMessage.is_expired\<close>; \<open>now\<close> is what \<open>datetime.now(timezone.utc)\<close> returns.\<close>

definition is_expired :: "real \<Rightarrow> StandardMessage \<Rightarrow> bool" where
  "is_expired now message =
     (case ttl message of
        None \<Rightarrow> False
      | Some t \<Rightarrow> (let elapsed = now - timestamp message in elapsed > real_of_int t))"

definition should_retry :: "StandardMessage \<Rightarrow> bool" where
  "should_retry message = (retry_count message < max_retries message)"

text \<open>
  \<open>increment_retry\<close> (and, below, the metadata updates of \<open>_send_to_dlq\<close> and
  \<open>replay_dlq\<close>) mutate the message object in place; the model returns the updated
  record. The two readings differ only for an object that is held elsewhere as well: a
  queue entry holding the same object would change with it. The theorems about retries and
  dead letters therefore state which entry a queue gains and how the sizes of the queues
  change, which holds in both readings, and no equation between whole queues.
\<close>

definition increment_retry :: "StandardMessage \<Rightarrow> StandardMessage" where
  "increment_retry message = message\<lparr>retry_count := retry_count message + 1\<rparr>"

text \<open>
  \<open>serialize\<close> is pydantic's \<open>model_dump_json().encode("utf-8")\<close>, a library function:
  it is a parameter \<open>ser\<close> of the model, \<open>None\<close> when it raises.
\<close>

definition get_size_bytes :: "(StandardMessage \<Rightarrow> string option) \<Rightarrow> StandardMessage \<Rightarrow> nat option" where
  "get_size_bytes ser message = map_option length (ser message)"

text \<open>Python's truth value of an \<open>Optional[str]\<close>: \<open>None\<close> and the empty string are false.\<close>

fun truthy :: "string option \<Rightarrow> bool" where
  "truthy None = False"
| "truthy (Some s) = (s \<noteq> [])"

definition validate_message ::
  "(StandardMessage \<Rightarrow> string option) \<Rightarrow> real \<Rightarrow> StandardMessage \<Rightarrow> validation_error list" where
  "validate_message ser now message =
     (case get_size_bytes ser message of
        Some sz \<Rightarrow> (if sz > 1024 then [SizeExceeded sz] else [])
      | None \<Rightarrow> [SizeFailed])
     @ (if is_expired now message then [HasExpired] else [])
     @ (if sender message = [] then [MissingSender] else [])
     @ (case kind message of
          AgentRequest action payload requires_response timeout \<Rightarrow>
            (if requires_response \<and> \<not> truthy (recipient message) then [MissingRecipient] else [])
        | AgentResponse request_id status_code result err processing_time_ms \<Rightarrow>
            (if request_id = [] then [MissingRequestId] else [])
        | ErrorMessage error_code error_type error_message stack_trace ctx recoverable \<Rightarrow>
            (if error_code = [] then [MissingErrorCode] else [])
        | _ \<Rightarrow> [])"

section \<open>Subscriptions (core/message\_bus.py, MessageSubscription)\<close>

text \<open>
  A callback is modelled by its outcome on a message: \<open>True\<close> when it returns,
  \<open>False\<close> when it raises.
\<close>

record MessageSubscription =
  subscriber_id :: string
  callback :: "StandardMessage \<Rightarrow> bool"
  topics :: "string set"
  message_types :: "string set"
  priority_threshold :: "MessagePriority option"
  is_active :: bool
  message_count :: nat
  error_count :: nat
  last_message_time :: "real option"

definition MessageSubscription_init ::
  "string \<Rightarrow> (StandardMessage \<Rightarrow> bool) \<Rightarrow> string set option \<Rightarrow> string set option
     \<Rightarrow> MessagePriority option \<Rightarrow> MessageSubscription" where
  "MessageSubscription_init sid cb tps mts threshold =
     \<lparr> subscriber_id = sid, callback = cb,
       topics = (case tps of None \<Rightarrow> {} | Some s \<Rightarrow> s),
       message_types = (case mts of None \<Rightarrow> {} | Some s \<Rightarrow> s),
       priority_threshold = threshold, is_active = True,
       message_count = 0, error_count = 0, last_message_time = None \<rparr>"

text \<open>
  Python's \<open>topic in message_topics\<close> for a string \<open>topic\<close>: membership in a list, the
  substring test on a string, key membership in a dictionary, and \<open>TypeError\<close> on a
  value that is no container.
\<close>

fun py_in :: "string \<Rightarrow> py_value \<Rightarrow> error + bool" where
  "py_in topic (PList xs) = Inr (PStr topic \<in> set xs)"
| "py_in topic (PStr s) = Inr (sublist topic s)"
| "py_in topic (PDict d) = Inr (topic \<in> fst ` set d)"
| "py_in topic PNone = Inl TypeError"
| "py_in topic (PBool b) = Inl TypeError"
| "py_in topic (PInt i) = Inl TypeError"
| "py_in topic (PFloat x) = Inl TypeError"
| "py_in topic (PDatetime x) = Inl TypeError"

text \<open>\<open>message.metadata.get("topics", [])\<close>.\<close>

definition message_topics :: "StandardMessage \<Rightarrow> py_value" where
  "message_topics message =
     (case map_of (metadata message) ''topics'' of None \<Rightarrow> PList [] | Some v \<Rightarrow> v)"

text \<open>
  \<open>any(topic in message_topics for topic in self.topics)\<close> over a non-empty set of
  topics: every test raises when the value is no container, and none raises otherwise.
\<close>

definition any_topic_in :: "string set \<Rightarrow> py_value \<Rightarrow> error + bool" where
  "any_topic_in tps v =
     (case py_in [] v of
        Inl e \<Rightarrow> Inl e
      | Inr _ \<Rightarrow> Inr (\<exists>topic\<in>tps. py_in topic v = Inr True))"

definition matches :: "MessageSubscription \<Rightarrow> StandardMessage \<Rightarrow> error + bool" where
  "matches sub message =
     (if \<not> is_active sub then Inr False
      else if (case priority_threshold sub of
                 None \<Rightarrow> False
               | Some th \<Rightarrow> priority_value (priority message) > priority_value th)
      then Inr False
      else if message_types sub \<noteq> {}
              \<and> MessageType_value (msg_type message) \<notin> message_types sub
      then Inr False
      else if topics sub \<noteq> {} then
        (case any_topic_in (topics sub) (message_topics message) of
           Inl e \<Rightarrow> Inl e
         | Inr found \<Rightarrow> Inr found)
      else Inr True)"

section \<open>The priority heap (heapq) and PersistentQueue\<close>

text \<open>
  A queue entry is the tuple \<open>(priority_value, timestamp, message)\<close>. Python compares
  tuples lexicographically: the first components that differ decide; when priority and
  timestamp are both equal the messages themselves are compared, and since a pydantic
  model defines equality (modelled as equality of the records) but no order, \<open>a < b\<close>
  is \<open>False\<close> for equal messages and raises \<open>TypeError\<close> for different ones.
\<close>

type_synonym entry = "real \<times> real \<times> StandardMessage"

definition key :: "entry \<Rightarrow> real \<times> real" where
  "key e = (fst e, fst (snd e))"

definition entry_lt :: "entry \<Rightarrow> entry \<Rightarrow> error + bool" where
  "entry_lt a b =
     (case (a, b) of ((p1, t1, m1), (p2, t2, m2)) \<Rightarrow>
        if p1 \<noteq> p2 then Inr (p1 < p2)
        else if t1 \<noteq> t2 then Inr (t1 < t2)
        else if m1 = m2 then Inr False
        else Inl TypeError)"

text \<open>
  \<open>heapq.heappush\<close> and \<open>heapq.heappop\<close> of the Python standard library, as CPython
  runs them (the module \<open>_heapq\<close>, which \<open>heapq\<close> imports over its Python fallback;
  both make the same comparisons and leave the same list when no comparison raises).
  \<open>siftdown\<close> moves the item at \<open>pos\<close> towards the root while it is smaller than its
  parent; \<open>siftup\<close> moves the item at \<open>pos\<close> down to a leaf along the smaller children
  and then sifts it towards the root again. A comparison that raises leaves the list
  as it is at that moment.
\<close>

function siftdown :: "entry list \<Rightarrow> nat \<Rightarrow> nat \<Rightarrow> error option \<times> entry list" where
  "siftdown heap startpos pos =
     (if pos > startpos then
        (case entry_lt (heap ! pos) (heap ! ((pos - 1) div 2)) of
           Inl e \<Rightarrow> (Some e, heap)
         | Inr lt \<Rightarrow>
             if lt then
               siftdown (heap[(pos - 1) div 2 := heap ! pos, pos := heap ! ((pos - 1) div 2)])
                 startpos ((pos - 1) div 2)
             else (None, heap))
      else (None, heap))"
  by pat_completeness auto
termination
  by (relation "measure (\<lambda>(heap, startpos, pos). pos)") auto

text \<open>The index of the smaller child of \<open>pos\<close>: the right one only when it exists and the
  left one is not smaller.\<close>

definition smaller_child :: "entry list \<Rightarrow> nat \<Rightarrow> error + nat" where
  "smaller_child heap pos =
     (let childpos = 2 * pos + 1 in
      if childpos + 1 < length heap then
        (case entry_lt (heap ! childpos) (heap ! (childpos + 1)) of
           Inl e \<Rightarrow> Inl e
         | Inr lt \<Rightarrow> Inr (if lt then childpos else childpos + 1))
      else Inr childpos)"

lemma smaller_child_bounds:
  "smaller_child heap pos = Inr c \<Longrightarrow> pos < length heap div 2
     \<Longrightarrow> pos < c \<and> c < length heap \<and> (c - 1) div 2 = pos"
  by (auto simp: smaller_child_def Let_def split: if_splits sum.splits)

function sink :: "entry list \<Rightarrow> nat \<Rightarrow> error option \<times> entry list \<times> nat" where
  "sink heap pos =
     (if pos < length heap div 2 then
        (case smaller_child heap pos of
           Inl e \<Rightarrow> (Some e, heap, pos)
         | Inr childpos \<Rightarrow>
             sink (heap[childpos := heap ! pos, pos := heap ! childpos]) childpos)
      else (None, heap, pos))"
  by pat_completeness auto
termination
proof (relation "measure (\<lambda>(heap, pos). length heap - pos)")
  show "wf (measure (\<lambda>(heap :: entry list, pos). length heap - pos))"
    by simp
next
  fix heap :: "entry list" and pos c
  assume "pos < length heap div 2" and "smaller_child heap pos = Inr c"
  then have "pos < c \<and> c < length heap"
    using smaller_child_bounds by blast
  then show "((heap[c := heap ! pos, pos := heap ! c], c), heap, pos)
               \<in> measure (\<lambda>(heap, pos). length heap - pos)"
    by (simp add: diff_less_mono2)
qed

definition siftup :: "entry list \<Rightarrow> nat \<Rightarrow> error option \<times> entry list" where
  "siftup heap pos =
     (case sink heap pos of
        (Some e, heap', leaf) \<Rightarrow> (Some e, heap')
      | (None, heap', leaf) \<Rightarrow> siftdown heap' pos leaf)"

definition heappush :: "entry list \<Rightarrow> entry \<Rightarrow> error option \<times> entry list" where
  "heappush heap item = siftdown (heap @ [item]) 0 (length heap)"

definition heappop :: "entry list \<Rightarrow> error option \<times> entry option \<times> entry list" where
  "heappop heap =
     (if heap = [] then (Some IndexError, None, heap)
      else
        (let lastelt = last heap; heap' = butlast heap in
         if heap' = [] then (None, Some lastelt, heap')
         else
           (let returnitem = heap' ! 0 in
            case siftup (heap'[0 := lastelt]) 0 of
              (Some e, h) \<Rightarrow> (Some e, None, h)
            | (None, h) \<Rightarrow> (None, Some returnitem, h))))"

text \<open>
  Python dictionaries as association lists: \<open>d[k] = v\<close> overwrites in place or appends,
  \<open>d.pop(k, None)\<close> removes the key when it is there.
\<close>

fun dict_set :: "(string \<times> 'v) list \<Rightarrow> string \<Rightarrow> 'v \<Rightarrow> (string \<times> 'v) list" where
  "dict_set [] k v = [(k, v)]"
| "dict_set ((k', v') # d) k v = (if k' = k then (k, v) # d else (k', v') # dict_set d k v)"

definition dict_pop :: "(string \<times> 'v) list \<Rightarrow> string \<Rightarrow> (string \<times> 'v) list" where
  "dict_pop d k = filter (\<lambda>(k', v). k' \<noteq> k) d"

text \<open>
  \<open>model_dump()\<close>: the dictionary of a message's fields by name. With
  \<open>use_enum_values\<close> the type is held by its string and the priority by its number.
\<close>

fun py_opt :: "('a \<Rightarrow> py_value) \<Rightarrow> 'a option \<Rightarrow> py_value" where
  "py_opt f None = PNone"
| "py_opt f (Some x) = f x"

definition model_dump :: "StandardMessage \<Rightarrow> py_dict" where
  "model_dump m =
     [(''id'', PStr (msg_id m)),
      (''type'', PStr (MessageType_value (msg_type m))),
      (''sender'', PStr (sender m)),
      (''recipient'', py_opt PStr (recipient m)),
      (''timestamp'', PDatetime (timestamp m)),
      (''priority'', PInt (priority_value (priority m))),
      (''ttl'', py_opt PInt (ttl m)),
      (''correlation_id'', py_opt PStr (correlation_id m)),
      (''metadata'', PDict (metadata m)),
      (''retry_count'', PInt (retry_count m)),
      (''max_retries'', PInt (max_retries m))]
     @ (case kind m of
          StandardOnly \<Rightarrow> []
        | AgentRequest action payload requires_response timeout \<Rightarrow>
            [(''action'', PStr action), (''payload'', PDict payload),
             (''requires_response'', PBool requires_response), (''timeout'', PInt timeout)]
        | AgentResponse request_id status_code result err processing_time_ms \<Rightarrow>
            [(''request_id'', PStr request_id), (''status_code'', PInt status_code),
             (''result'', py_opt PDict result), (''error'', py_opt PDict err),
             (''processing_time_ms'', py_opt PFloat processing_time_ms)]
        | ErrorMessage error_code error_type error_message stack_trace ctx recoverable \<Rightarrow>
            [(''error_code'', PStr error_code), (''error_type'', PStr error_type),
             (''error_message'', PStr error_message), (''stack_trace'', py_opt PStr stack_trace),
             (''context'', PDict ctx), (''recoverable'', PBool recoverable)]
        | StatusMessage status component health_score mtr details \<Rightarrow>
            [(''status'', PStr status), (''component'', PStr component),
             (''health_score'', PFloat health_score), (''metrics'', PDict mtr),
             (''details'', PDict details)]
        | ContextMessage context_type context_data version merge_strategy expires_at \<Rightarrow>
            [(''context_type'', PStr context_type), (''context_data'', PDict context_data),
             (''version'', PInt version), (''merge_strategy'', PStr merge_strategy),
             (''expires_at'', py_opt PDatetime expires_at)])"

text \<open>
  \<open>create_message\<close>. The classes \<open>type_map\<close> names are the five subclasses; calling one
  on the dictionary (\<open>message_class(**data)\<close>) is pydantic's validation, a parameter
  \<open>ctor\<close> of the model. A \<open>type\<close> that is a list or a dictionary cannot be hashed for
  the lookup.
\<close>

datatype class_name = CAgentRequest | CAgentResponse | CErrorMessage | CStatusMessage | CContextMessage

definition type_map :: "(string \<times> class_name) list" where
  "type_map =
     [(MessageType_value AGENT_REQUEST, CAgentRequest),
      (MessageType_value AGENT_RESPONSE, CAgentResponse),
      (MessageType_value ERROR, CErrorMessage),
      (MessageType_value STATUS, CStatusMessage),
      (MessageType_value CONTEXT, CContextMessage)]"

definition create_message ::
  "(class_name \<Rightarrow> py_dict \<Rightarrow> error + StandardMessage) \<Rightarrow> py_dict \<Rightarrow> error + StandardMessage" where
  "create_message ctor data =
     (case map_of data ''type'' of
        None \<Rightarrow> Inl (ValueError ''Message type is required'')
      | Some PNone \<Rightarrow> Inl (ValueError ''Message type is required'')
      | Some (PStr ty) \<Rightarrow>
          (case map_of type_map ty of
             None \<Rightarrow> Inl (ValueError ''Unknown message type'')
           | Some message_class \<Rightarrow> ctor message_class data)
      | Some (PList xs) \<Rightarrow> Inl TypeError
      | Some (PDict d) \<Rightarrow> Inl TypeError
      | Some other \<Rightarrow> Inl (ValueError ''Unknown message type''))"

subsection \<open>PersistentQueue\<close>

text \<open>
  \<open>stored\<close> is the content of the file at \<open>persist_path\<close> (\<open>None\<close>: no file); the
  pickled list is modelled by the list itself, and a write is taken to succeed.
  \<open>put\<close> takes the reading \<open>now\<close> of \<open>time.time()\<close>, which it makes only when the
  queue is not full. The first component of a result is the exception raised, if any.
\<close>

type_synonym snapshot = "(real \<times> real \<times> py_dict) list"

record PersistentQueue =
  name :: string
  max_size :: int
  persist_path :: "string option"
  queue :: "entry list"
  stored :: "snapshot option"

definition persist_to_disk :: "PersistentQueue \<Rightarrow> PersistentQueue" where
  "persist_to_disk q =
     (case persist_path q of
        None \<Rightarrow> q
      | Some path \<Rightarrow> q\<lparr>stored := Some (map (\<lambda>(p, t, m). (p, t, model_dump m)) (queue q))\<rparr>)"

fun restore ::
  "(class_name \<Rightarrow> py_dict \<Rightarrow> error + StandardMessage) \<Rightarrow> snapshot \<Rightarrow> entry list \<Rightarrow> entry list" where
  "restore ctor [] heap = heap"
| "restore ctor ((p, t, msg_data) # data) heap =
     (case create_message ctor msg_data of
        Inl e \<Rightarrow> restore ctor data heap
      | Inr message \<Rightarrow> restore ctor data (snd (heappush heap (p, t, message))))"

definition load_from_disk ::
  "(class_name \<Rightarrow> py_dict \<Rightarrow> error + StandardMessage) \<Rightarrow> PersistentQueue \<Rightarrow> PersistentQueue" where
  "load_from_disk ctor q =
     (case (persist_path q, stored q) of
        (Some path, Some data) \<Rightarrow> q\<lparr>queue := restore ctor data []\<rparr>
      | _ \<Rightarrow> q)"

definition PersistentQueue_init ::
  "(class_name \<Rightarrow> py_dict \<Rightarrow> error + StandardMessage) \<Rightarrow> string \<Rightarrow> int \<Rightarrow> string option
     \<Rightarrow> snapshot option \<Rightarrow> PersistentQueue" where
  "PersistentQueue_init ctor nm cap path file =
     load_from_disk ctor
       \<lparr> name = nm, max_size = cap, persist_path = path, queue = [], stored = file \<rparr>"

definition is_full :: "PersistentQueue \<Rightarrow> bool" where
  "is_full q = (int (length (queue q)) \<ge> max_size q)"

definition put :: "real \<Rightarrow> StandardMessage \<Rightarrow> PersistentQueue \<Rightarrow> error option \<times> PersistentQueue" where
  "put now message q =
     (if int (length (queue q)) \<ge> max_size q then (Some QueueOverflowError, q)
      else
        (let pv = real_of_int (priority_value (priority message));
             ts = now
         in case heappush (queue q) (pv, ts, message) of
              (Some e, h) \<Rightarrow> (Some e, q\<lparr>queue := h\<rparr>)
            | (None, h) \<Rightarrow> (None, persist_to_disk (q\<lparr>queue := h\<rparr>))))"

definition get :: "PersistentQueue \<Rightarrow> error option \<times> StandardMessage option \<times> PersistentQueue" where
  "get q =
     (if queue q = [] then (None, None, q)
      else
        (case heappop (queue q) of
           (Some e, r, h) \<Rightarrow> (Some e, None, q\<lparr>queue := h\<rparr>)
         | (None, r, h) \<Rightarrow>
             (None, map_option (\<lambda>(p, t, message). message) r, persist_to_disk (q\<lparr>queue := h\<rparr>))))"

definition peek :: "PersistentQueue \<Rightarrow> StandardMessage option" where
  "peek q = (case queue q of [] \<Rightarrow> None | (p, t, message) # rest \<Rightarrow> Some message)"

definition qsize :: "PersistentQueue \<Rightarrow> nat" where
  "qsize q = length (queue q)"

definition clear :: "PersistentQueue \<Rightarrow> PersistentQueue" where
  "clear q = q\<lparr>queue := [], stored := (if persist_path q = None then stored q else None)\<rparr>"

section \<open>The message bus (core/message\_bus.py, MessageBus)\<close>

text \<open>
  The environment of the bus: the serializer behind \<open>get_size_bytes\<close>, the system
  clock as the sequence of its readings (each call of \<open>time.time()\<close> or
  \<open>datetime.now\<close> takes the next one), and \<open>isoformat\<close>. The bus counts the readings
  it has made in \<open>ticks\<close>, and records the durations it passed to \<open>asyncio.sleep\<close> in
  \<open>slept\<close>. The deques \<open>_latency_samples\<close> and \<open>_throughput_window\<close> are lists
  bounded by their \<open>maxlen\<close>. One task runs at a time: what other tasks do while the bus
  sleeps or awaits is not part of a step.
\<close>

record env =
  serialize :: "StandardMessage \<Rightarrow> string option"
  clock :: "nat \<Rightarrow> real"
  isoformat :: "real \<Rightarrow> string"

record Metrics =
  messages_published :: int
  messages_delivered :: int
  messages_failed :: int
  messages_dlq :: int
  delivery_errors :: int
  queue_overflows :: int
  avg_latency_ms :: real
  throughput_per_sec :: real

record MessageBus =
  main_queue :: PersistentQueue
  dead_letter_queue :: PersistentQueue
  subscriptions :: "(string \<times> MessageSubscription) list"
  metrics :: Metrics
  latency_samples :: "real list"
  throughput_window :: "real list"
  running :: bool
  ticks :: nat
  slept :: "real list"

definition MessageBus_init ::
  "(class_name \<Rightarrow> py_dict \<Rightarrow> error + StandardMessage) \<Rightarrow> int \<Rightarrow> int \<Rightarrow> string \<Rightarrow> bool
     \<Rightarrow> snapshot option \<Rightarrow> snapshot option \<Rightarrow> MessageBus" where
  "MessageBus_init ctor max_queue_size max_dead_letter_size persistence_dir enable_persistence
       main_file dlq_file =
     \<lparr> main_queue = PersistentQueue_init ctor ''main'' max_queue_size
         (if enable_persistence then Some (persistence_dir @ ''/main_queue.pkl'') else None)
         main_file,
       dead_letter_queue = PersistentQueue_init ctor ''dead_letter'' max_dead_letter_size
         (if enable_persistence then Some (persistence_dir @ ''/dlq.pkl'') else None)
         dlq_file,
       subscriptions = [],
       metrics = \<lparr> messages_published = 0, messages_delivered = 0, messages_failed = 0,
                   messages_dlq = 0, delivery_errors = 0, queue_overflows = 0,
                   avg_latency_ms = 0, throughput_per_sec = 0 \<rparr>,
       latency_samples = [], throughput_window = [], running = False, ticks = 0, slept = [] \<rparr>"

definition now :: "env \<Rightarrow> MessageBus \<Rightarrow> real" where
  "now e b = clock e (ticks b)"

definition tick :: "MessageBus \<Rightarrow> MessageBus" where
  "tick b = b\<lparr>ticks := ticks b + 1\<rparr>"

definition sleep :: "real \<Rightarrow> MessageBus \<Rightarrow> MessageBus" where
  "sleep d b = b\<lparr>slept := slept b @ [d]\<rparr>"

definition append_maxlen :: "nat \<Rightarrow> 'a list \<Rightarrow> 'a \<Rightarrow> 'a list" where
  "append_maxlen n xs x = (let ys = xs @ [x] in drop (length ys - n) ys)"

text \<open>\<open>self.main_queue.put\<close>, \<open>self.dead_letter_queue.put\<close> and the two \<open>get\<close>s, on the
  bus: a \<open>put\<close> reads the clock unless the queue is full.\<close>

definition put_main :: "env \<Rightarrow> StandardMessage \<Rightarrow> MessageBus \<Rightarrow> error option \<times> MessageBus" where
  "put_main e message b =
     (case put (now e b) message (main_queue b) of
        (err, q) \<Rightarrow> (err, (if is_full (main_queue b) then b else tick b)\<lparr>main_queue := q\<rparr>))"

definition put_dlq :: "env \<Rightarrow> StandardMessage \<Rightarrow> MessageBus \<Rightarrow> error option \<times> MessageBus" where
  "put_dlq e message b =
     (case put (now e b) message (dead_letter_queue b) of
        (err, q) \<Rightarrow>
          (err, (if is_full (dead_letter_queue b) then b else tick b)\<lparr>dead_letter_queue := q\<rparr>))"

definition get_main :: "MessageBus \<Rightarrow> error option \<times> StandardMessage option \<times> MessageBus" where
  "get_main b = (case get (main_queue b) of (err, r, q) \<Rightarrow> (err, r, b\<lparr>main_queue := q\<rparr>))"

definition get_dlq :: "MessageBus \<Rightarrow> error option \<times> StandardMessage option \<times> MessageBus" where
  "get_dlq b =
     (case get (dead_letter_queue b) of (err, r, q) \<Rightarrow> (err, r, b\<lparr>dead_letter_queue := q\<rparr>))"

text \<open>\<open>MessageValidator.validate_message\<close> as \<open>publish\<close> calls it: \<open>is_expired\<close> reads the
  clock only for a message with a ttl.\<close>

definition run_validation ::
  "env \<Rightarrow> StandardMessage \<Rightarrow> MessageBus \<Rightarrow> validation_error list \<times> MessageBus" where
  "run_validation e message b =
     (validate_message (serialize e) (now e b) message,
      (if ttl message = None then b else tick b))"

definition publish ::
  "env \<Rightarrow> StandardMessage \<Rightarrow> bool \<Rightarrow> MessageBus \<Rightarrow> error option \<times> MessageBus" where
  "publish e message validate b0 =
     (let start_time = now e b0;
          b1 = tick b0;
          (errors, b2) = (if validate then run_validation e message b1 else ([], b1));
          (outcome, b3) =
            (if errors \<noteq> [] then (Some (MessageCorruptionError errors), b2)
             else
               (case put_main e message b2 of
                  (None, b') \<Rightarrow>
                    (None,
                     (tick b')\<lparr>metrics := (metrics b')
                                  \<lparr>messages_published := messages_published (metrics b') + 1\<rparr>,
                               throughput_window :=
                                  append_maxlen 60 (throughput_window b') (now e b')\<rparr>)
                | (Some QueueOverflowError, b') \<Rightarrow>
                    (Some QueueOverflowError,
                     b'\<lparr>metrics := (metrics b')
                           \<lparr>queue_overflows := queue_overflows (metrics b') + 1\<rparr>\<rparr>)
                | (Some err, b') \<Rightarrow> (Some err, b')));
          latency_ms = (now e b3 - start_time) * 1000
      in (outcome, (tick b3)\<lparr>latency_samples := append_maxlen 1000 (latency_samples b3) latency_ms\<rparr>))"

definition subscribe ::
  "string \<Rightarrow> (StandardMessage \<Rightarrow> bool) \<Rightarrow> string list option \<Rightarrow> string list option
     \<Rightarrow> MessagePriority option \<Rightarrow> MessageBus \<Rightarrow> MessageBus" where
  "subscribe sid cb tps mts threshold b =
     (let subscription =
            MessageSubscription_init sid cb
              (case tps of None \<Rightarrow> None | Some l \<Rightarrow> if l = [] then None else Some (set l))
              (case mts of None \<Rightarrow> None | Some l \<Rightarrow> if l = [] then None else Some (set l))
              threshold
      in b\<lparr>subscriptions := dict_set (subscriptions b) sid subscription\<rparr>)"

definition unsubscribe :: "string \<Rightarrow> MessageBus \<Rightarrow> MessageBus" where
  "unsubscribe sid b = b\<lparr>subscriptions := dict_pop (subscriptions b) sid\<rparr>"

definition update_avg_latency :: "MessageBus \<Rightarrow> MessageBus" where
  "update_avg_latency b =
     (if latency_samples b \<noteq> [] then
        b\<lparr>metrics := (metrics b)
             \<lparr>avg_latency_ms := sum_list (latency_samples b) / real (length (latency_samples b))\<rparr>\<rparr>
      else b)"


text \<open>\<open>_send_to_dlq\<close>: the overflow of the dead-letter queue is caught and the message is
  dropped; any other exception of the \<open>put\<close> propagates.\<close>

definition send_to_dlq ::
  "env \<Rightarrow> StandardMessage \<Rightarrow> string \<Rightarrow> MessageBus \<Rightarrow> error option \<times> MessageBus" where
  "send_to_dlq e message reason b0 =
     (let m1 = message\<lparr>metadata := dict_set (metadata message) ''dlq_reason'' (PStr reason)\<rparr>;
          m2 = m1\<lparr>metadata :=
                   dict_set (metadata m1) ''dlq_timestamp'' (PStr (isoformat e (now e b0)))\<rparr>;
          b1 = tick b0
      in case put_dlq e m2 b1 of
           (None, b2) \<Rightarrow>
             (None, b2\<lparr>metrics := (metrics b2)\<lparr>messages_dlq := messages_dlq (metrics b2) + 1\<rparr>\<rparr>)
         | (Some QueueOverflowError, b2) \<Rightarrow> (None, b2)
         | (Some err, b2) \<Rightarrow> (Some err, b2))"

definition handle_delivery_failure ::
  "env \<Rightarrow> StandardMessage \<Rightarrow> string \<Rightarrow> MessageBus \<Rightarrow> error option \<times> MessageBus" where
  "handle_delivery_failure e message reason b0 =
     (let b1 = b0\<lparr>metrics := (metrics b0)
                   \<lparr>messages_failed := messages_failed (metrics b0) + 1\<rparr>\<rparr>
      in if should_retry message then
           (let message' = increment_retry message;
                b2 = sleep (0.1 * real_of_int (retry_count message')) b1
            in put_main e message' b2)
         else send_to_dlq e message reason b1)"

text \<open>\<open>_deliver_to_subscriber\<close>: the outcome of the callback and the subscription with
  its counters updated; \<open>t\<close> is the reading \<open>datetime.now\<close> makes after a success.\<close>

definition deliver_to_subscriber ::
  "real \<Rightarrow> StandardMessage \<Rightarrow> MessageSubscription \<Rightarrow> bool \<times> MessageSubscription" where
  "deliver_to_subscriber t message sub =
     (if callback sub message then
        (True, sub\<lparr>message_count := message_count sub + 1, last_message_time := Some t\<rparr>)
      else (False, sub\<lparr>error_count := error_count sub + 1\<rparr>))"

fun matching_subs ::
  "MessageSubscription list \<Rightarrow> StandardMessage \<Rightarrow> error + MessageSubscription list" where
  "matching_subs [] message = Inr []"
| "matching_subs (sub # subs) message =
     (case matches sub message of
        Inl err \<Rightarrow> Inl err
      | Inr hit \<Rightarrow>
          (case matching_subs subs message of
             Inl err \<Rightarrow> Inl err
           | Inr rest \<Rightarrow> Inr (if hit then sub # rest else rest)))"

text \<open>The fan-out: every matching subscription is called once, in the order of the
  registry; the result is the registry with the called subscriptions updated, the number
  of deliveries that succeeded and the number of clock readings made.\<close>

fun deliver_each ::
  "env \<Rightarrow> StandardMessage \<Rightarrow> (string \<times> MessageSubscription) list \<Rightarrow> nat
     \<Rightarrow> (string \<times> MessageSubscription) list \<times> nat \<times> nat" where
  "deliver_each e message [] k = ([], 0, k)"
| "deliver_each e message ((sid, sub) # rest) k =
     (if matches sub message = Inr True then
        (case deliver_to_subscriber (clock e k) message sub of
           (ok, sub') \<Rightarrow>
             (case deliver_each e message rest (if ok then k + 1 else k) of
                (rest', n, k') \<Rightarrow> ((sid, sub') # rest', (if ok then n + 1 else n), k')))
      else
        (case deliver_each e message rest k of
           (rest', n, k') \<Rightarrow> ((sid, sub) # rest', n, k')))"

definition deliver_message ::
  "env \<Rightarrow> StandardMessage \<Rightarrow> MessageBus \<Rightarrow> error option \<times> MessageBus" where
  "deliver_message e message b0 =
     (let start_time = now e b0;
          b1 = tick b0
      in case matching_subs (map snd (subscriptions b1)) message of
           Inl err \<Rightarrow> (Some err, b1)
         | Inr matching \<Rightarrow>
             if matching = [] \<and> truthy (recipient message) then
               handle_delivery_failure e message
                 (''No subscriber found for recipient: ''
                    @ (case recipient message of None \<Rightarrow> [] | Some r \<Rightarrow> r)) b1
             else
               (case deliver_each e message (subscriptions b1) (ticks b1) of
                  (subs', delivered_count, k) \<Rightarrow>
                    (let b2 = b1\<lparr>subscriptions := subs', ticks := k\<rparr>
                     in if delivered_count > 0 then
                          (let latency_ms = (now e b2 - start_time) * 1000;
                               b3 = (tick b2)
                                 \<lparr>metrics := (metrics b2)
                                    \<lparr>messages_delivered :=
                                       messages_delivered (metrics b2) + int delivered_count\<rparr>,
                                  latency_samples :=
                                    append_maxlen 1000 (latency_samples b2) latency_ms\<rparr>
                           in (None, update_avg_latency b3))
                        else handle_delivery_failure e message ''No successful deliveries'' b2)))"


section \<open>The heap operations keep the heap order\<close>

text \<open>
  \<open>is_heap\<close> is the heap order on the list: no entry has a smaller key than its parent.
  A set of entries is \<open>comparable\<close> when entries with the same priority and timestamp
  are the same entry, so that no comparison among them raises. \<open>rise_inv\<close> and
  \<open>sink_inv\<close> are the loop invariants of \<open>siftdown\<close> and \<open>sink\<close>: the heap order holds
  except around \<open>pos\<close>, and the parent of \<open>pos\<close> is no greater than the children of
  \<open>pos\<close>.
\<close>

definition is_heap :: "entry list \<Rightarrow> bool" where
  "is_heap h = (\<forall>i. 0 < i \<and> i < length h \<longrightarrow> key (h ! ((i - 1) div 2)) \<le> key (h ! i))"

definition comparable :: "entry set \<Rightarrow> bool" where
  "comparable S = (\<forall>a\<in>S. \<forall>b\<in>S. key a = key b \<longrightarrow> a = b)"

definition rise_inv :: "entry list \<Rightarrow> nat \<Rightarrow> bool" where
  "rise_inv h pos =
     ((\<forall>i. 0 < i \<and> i < length h \<and> i \<noteq> pos \<longrightarrow> key (h ! ((i - 1) div 2)) \<le> key (h ! i))
      \<and> (\<forall>i. 0 < pos \<and> 0 < i \<and> i < length h \<and> (i - 1) div 2 = pos
             \<longrightarrow> key (h ! ((pos - 1) div 2)) \<le> key (h ! i)))"

definition sink_inv :: "entry list \<Rightarrow> nat \<Rightarrow> bool" where
  "sink_inv h pos =
     ((\<forall>i. 0 < i \<and> i < length h \<and> i \<noteq> pos \<and> (i - 1) div 2 \<noteq> pos
             \<longrightarrow> key (h ! ((i - 1) div 2)) \<le> key (h ! i))
      \<and> (\<forall>i. 0 < pos \<and> 0 < i \<and> i < length h \<and> (i - 1) div 2 = pos
             \<longrightarrow> key (h ! ((pos - 1) div 2)) \<le> key (h ! i)))"

lemma entry_lt_Inr: "entry_lt a b = Inr v \<Longrightarrow> v = (key a < key b)"
proof -
  obtain p1 t1 m1 where a: "a = (p1, t1, m1)" by (cases a)
  obtain p2 t2 m2 where b: "b = (p2, t2, m2)" by (cases b)
  show "entry_lt a b = Inr v \<Longrightarrow> v = (key a < key b)"
    unfolding a b entry_lt_def key_def by (auto simp: less_prod_def split: if_splits)
qed

lemma entry_lt_comparable:
  assumes "comparable S" and "a \<in> S" and "b \<in> S"
  shows "entry_lt a b = Inr (key a < key b)"
proof -
  have e: "key a = key b \<Longrightarrow> a = b"
    using assms unfolding comparable_def by blast
  obtain p1 t1 m1 where a: "a = (p1, t1, m1)" by (cases a)
  obtain p2 t2 m2 where b: "b = (p2, t2, m2)" by (cases b)
  show ?thesis
    using e unfolding a b entry_lt_def key_def by (auto simp: less_prod_def)
qed

lemma is_heap_root_le:
  "is_heap h \<Longrightarrow> i < length h \<Longrightarrow> key (h ! 0) \<le> key (h ! i)"
proof (induction i rule: less_induct)
  case (less i)
  show ?case
  proof (cases "i = 0")
    case True
    then show ?thesis by simp
  next
    case False
    then have p: "(i - 1) div 2 < i" by simp
    from False less.prems have "key (h ! ((i - 1) div 2)) \<le> key (h ! i)"
      by (simp add: is_heap_def)
    moreover have "key (h ! 0) \<le> key (h ! ((i - 1) div 2))"
      using less.IH [OF p] less.prems p by simp
    ultimately show ?thesis by simp
  qed
qed

lemma rise_inv_root: "rise_inv h 0 \<Longrightarrow> is_heap h"
  by (auto simp: rise_inv_def is_heap_def)

lemma rise_inv_stop:
  "rise_inv h pos \<Longrightarrow> key (h ! ((pos - 1) div 2)) \<le> key (h ! pos) \<Longrightarrow> is_heap h"
  unfolding rise_inv_def is_heap_def by metis

lemma rise_inv_swap:
  assumes inv: "rise_inv h pos" and pos: "0 < pos" "pos < length h"
    and lt: "key (h ! pos) < key (h ! ((pos - 1) div 2))"
  shows "rise_inv (h[(pos - 1) div 2 := h ! pos, pos := h ! ((pos - 1) div 2)]) ((pos - 1) div 2)"
proof -
  define q where "q = (pos - 1) div 2"
  define h' where "h' = h[q := h ! pos, pos := h ! q]"
  have qlt: "q < pos" using pos by (simp add: q_def)
  have lt': "key (h ! pos) < key (h ! q)" using lt by (simp add: q_def)
  have len: "length h' = length h" by (simp add: h'_def)
  have at_q: "h' ! q = h ! pos" using qlt pos by (simp add: h'_def)
  have at_pos: "h' ! pos = h ! q" using pos by (simp add: h'_def)
  have other: "\<And>j. j \<noteq> q \<Longrightarrow> j \<noteq> pos \<Longrightarrow> h' ! j = h ! j" by (simp add: h'_def)
  have rel: "\<And>i. 0 < i \<Longrightarrow> i < length h \<Longrightarrow> i \<noteq> pos \<Longrightarrow> key (h ! ((i - 1) div 2)) \<le> key (h ! i)"
    using inv by (simp add: rise_inv_def)
  have gp: "\<And>i. 0 < i \<Longrightarrow> i < length h \<Longrightarrow> (i - 1) div 2 = pos \<Longrightarrow> key (h ! q) \<le> key (h ! i)"
    using inv pos by (simp add: rise_inv_def q_def)
  have A: "key (h' ! ((i - 1) div 2)) \<le> key (h' ! i)" if i: "0 < i" "i < length h'" "i \<noteq> q" for i
  proof -
    consider (a) "i = pos" | (b) "i \<noteq> pos" "(i - 1) div 2 = q" | (c) "i \<noteq> pos" "(i - 1) div 2 = pos"
      | (d) "i \<noteq> pos" "(i - 1) div 2 \<noteq> pos" "(i - 1) div 2 \<noteq> q" by blast
    then show ?thesis
    proof cases
      case a
      then have "(i - 1) div 2 = q" by (simp add: q_def)
      then show ?thesis using a at_q at_pos lt' by simp
    next
      case b
      have "key (h ! q) \<le> key (h ! i)" using rel [of i] i b len by simp
      then show ?thesis using b i at_q other [of i] lt' by simp
    next
      case c
      have "key (h ! q) \<le> key (h ! i)" using gp [of i] i c len by simp
      then show ?thesis using c i at_pos other [of i] by simp
    next
      case d
      then show ?thesis using rel [of i] i len other [of i] other [of "(i - 1) div 2"] by simp
    qed
  qed
  have B: "key (h' ! ((q - 1) div 2)) \<le> key (h' ! i)"
    if i: "0 < q" "0 < i" "i < length h'" "(i - 1) div 2 = q" for i
  proof -
    have qq: "(q - 1) div 2 < q" using i by simp
    have e: "h' ! ((q - 1) div 2) = h ! ((q - 1) div 2)"
      using qq qlt other [of "(q - 1) div 2"] by simp
    have r: "key (h ! ((q - 1) div 2)) \<le> key (h ! q)"
      using rel [of q] i qlt pos by simp
    show ?thesis
    proof (cases "i = pos")
      case True
      then show ?thesis using e r at_pos by simp
    next
      case False
      have "i \<noteq> q" using i by auto
      then have "h' ! i = h ! i" using False other by simp
      moreover have "key (h ! q) \<le> key (h ! i)" using rel [of i] i False len by simp
      ultimately show ?thesis using e r by simp
    qed
  qed
  show ?thesis
    unfolding rise_inv_def q_def [symmetric] h'_def [symmetric] using A B by blast
qed

lemma siftdown_mset:
  "pos < length h \<Longrightarrow> mset (snd (siftdown h startpos pos)) = mset h"
proof (induction h startpos pos rule: siftdown.induct)
  case (1 heap startpos pos)
  let ?q = "(pos - 1) div 2"
  let ?h = "heap[?q := heap ! pos, pos := heap ! ?q]"
  show ?case
  proof (cases "pos > startpos")
    case False
    then show ?thesis by (subst siftdown.simps) simp
  next
    case True
    then have q: "?q < length heap" using "1.prems" by simp
    have ms: "mset ?h = mset heap" using mset_swap [of pos heap ?q] q "1.prems" by simp
    show ?thesis
    proof (cases "entry_lt (heap ! pos) (heap ! ?q)")
      case (Inl e)
      then show ?thesis using True by (subst siftdown.simps) simp
    next
      case (Inr lt)
      show ?thesis
      proof (cases lt)
        case False
        then show ?thesis using True Inr by (subst siftdown.simps) simp
      next
        case lt: True
        have "mset (snd (siftdown ?h startpos ?q)) = mset ?h"
          using "1.IH" [OF True Inr lt] q by simp
        then show ?thesis using True Inr lt ms by (subst siftdown.simps) simp
      qed
    qed
  qed
qed

lemma siftdown_no_error:
  "comparable (set h) \<Longrightarrow> pos < length h \<Longrightarrow> fst (siftdown h startpos pos) = None"
proof (induction h startpos pos rule: siftdown.induct)
  case (1 heap startpos pos)
  let ?q = "(pos - 1) div 2"
  let ?h = "heap[?q := heap ! pos, pos := heap ! ?q]"
  show ?case
  proof (cases "pos > startpos")
    case False
    then show ?thesis by (subst siftdown.simps) simp
  next
    case True
    then have q: "?q < length heap" using "1.prems" by simp
    have cmp: "entry_lt (heap ! pos) (heap ! ?q) = Inr (key (heap ! pos) < key (heap ! ?q))"
      using entry_lt_comparable [OF "1.prems"(1)] q "1.prems"(2) by simp
    show ?thesis
    proof (cases "key (heap ! pos) < key (heap ! ?q)")
      case False
      then show ?thesis using True cmp by (subst siftdown.simps) simp
    next
      case lt: True
      have "mset ?h = mset heap" using mset_swap [of pos heap ?q] q "1.prems" by simp
      then have "set ?h = set heap" by (metis set_mset_mset)
      then have "fst (siftdown ?h startpos ?q) = None"
        using "1.IH" [OF True cmp lt] q "1.prems"(1) by simp
      then show ?thesis using True cmp lt by (subst siftdown.simps) simp
    qed
  qed
qed

lemma siftdown_heap:
  "startpos = 0 \<Longrightarrow> pos < length h \<Longrightarrow> rise_inv h pos
     \<Longrightarrow> fst (siftdown h startpos pos) = None \<Longrightarrow> is_heap (snd (siftdown h startpos pos))"
proof (induction h startpos pos rule: siftdown.induct)
  case (1 heap startpos pos)
  let ?q = "(pos - 1) div 2"
  let ?h = "heap[?q := heap ! pos, pos := heap ! ?q]"
  show ?case
  proof (cases "pos > startpos")
    case False
    then have "pos = 0" using "1.prems" by simp
    then show ?thesis using "1.prems" rise_inv_root by (subst siftdown.simps) simp
  next
    case True
    then have q: "?q < length heap" using "1.prems" by simp
    show ?thesis
    proof (cases "entry_lt (heap ! pos) (heap ! ?q)")
      case (Inl e)
      then have "fst (siftdown heap startpos pos) = Some e"
        using True by (subst siftdown.simps) simp
      then show ?thesis using "1.prems"(4) by simp
    next
      case (Inr lt)
      have v: "lt = (key (heap ! pos) < key (heap ! ?q))" using entry_lt_Inr [OF Inr] .
      show ?thesis
      proof (cases lt)
        case False
        then have "is_heap heap" using rise_inv_stop [OF "1.prems"(3)] v by simp
        then show ?thesis using True Inr False by (subst siftdown.simps) simp
      next
        case lt: True
        have inv: "rise_inv ?h ?q"
          using rise_inv_swap [OF "1.prems"(3) _ "1.prems"(2)] True lt v by simp
        have e: "siftdown heap startpos pos = siftdown ?h startpos ?q"
          using True Inr lt by (subst siftdown.simps) simp
        have "is_heap (snd (siftdown ?h startpos ?q))"
          using "1.IH" [OF True Inr lt "1.prems"(1) _ inv] q "1.prems"(4) e by simp
        then show ?thesis using e by simp
      qed
    qed
  qed
qed

lemma smaller_child_least:
  assumes "smaller_child h pos = Inr c" and "pos < length h div 2"
  shows "\<forall>i. 0 < i \<and> i < length h \<and> (i - 1) div 2 = pos \<longrightarrow> key (h ! c) \<le> key (h ! i)"
proof -
  let ?l = "2 * pos + 1"
  have kids: "i = ?l \<or> i = ?l + 1" if "0 < i" "(i - 1) div 2 = pos" for i
    using that by auto
  show ?thesis
  proof (cases "?l + 1 < length h")
    case False
    then have "c = ?l" using assms(1) by (simp add: smaller_child_def)
    moreover have "key (h ! ?l) \<le> key (h ! i)" if "0 < i" "i < length h" "(i - 1) div 2 = pos" for i
      using kids [OF that(1,3)] that(2) False by auto
    ultimately show ?thesis by blast
  next
    case True
    then obtain lt where cmp: "entry_lt (h ! ?l) (h ! (?l + 1)) = Inr lt"
      and c: "c = (if lt then ?l else ?l + 1)"
      using assms(1) by (auto simp: smaller_child_def split: sum.splits)
    have v: "lt = (key (h ! ?l) < key (h ! (?l + 1)))" using entry_lt_Inr [OF cmp] .
    have "key (h ! c) \<le> key (h ! i)" if "0 < i" "i < length h" "(i - 1) div 2 = pos" for i
      using kids [OF that(1,3)] c v by (cases lt) auto
    then show ?thesis by blast
  qed
qed

lemma smaller_child_no_error:
  assumes "comparable (set h)"
  shows "\<exists>c. smaller_child h pos = Inr c"
proof (cases "2 * pos + 1 + 1 < length h")
  case False
  then show ?thesis by (simp add: smaller_child_def)
next
  case True
  then have "entry_lt (h ! (2 * pos + 1)) (h ! (2 * pos + 1 + 1))
      = Inr (key (h ! (2 * pos + 1)) < key (h ! (2 * pos + 1 + 1)))"
    using entry_lt_comparable [OF assms] by simp
  then show ?thesis using True by (simp add: smaller_child_def)
qed

lemma sink_inv_leaf:
  assumes "sink_inv h pos" and "\<not> pos < length h div 2"
  shows "rise_inv h pos"
proof -
  have "False" if "0 < i" "i < length h" "(i - 1) div 2 = pos" for i
    using that assms(2) by auto
  then show ?thesis using assms(1) unfolding sink_inv_def rise_inv_def by blast
qed

lemma sink_inv_swap:
  assumes inv: "sink_inv h pos" and c: "pos < c" "c < length h" "(c - 1) div 2 = pos"
    and least: "\<forall>i. 0 < i \<and> i < length h \<and> (i - 1) div 2 = pos \<longrightarrow> key (h ! c) \<le> key (h ! i)"
  shows "sink_inv (h[c := h ! pos, pos := h ! c]) c"
proof -
  define h' where "h' = h[c := h ! pos, pos := h ! c]"
  have len: "length h' = length h" by (simp add: h'_def)
  have at_pos: "h' ! pos = h ! c" using c by (simp add: h'_def)
  have other: "\<And>j. j \<noteq> c \<Longrightarrow> j \<noteq> pos \<Longrightarrow> h' ! j = h ! j" by (simp add: h'_def)
  have rel: "\<And>i. 0 < i \<Longrightarrow> i < length h \<Longrightarrow> i \<noteq> pos \<Longrightarrow> (i - 1) div 2 \<noteq> pos
               \<Longrightarrow> key (h ! ((i - 1) div 2)) \<le> key (h ! i)"
    using inv by (simp add: sink_inv_def)
  have gp: "\<And>i. 0 < pos \<Longrightarrow> 0 < i \<Longrightarrow> i < length h \<Longrightarrow> (i - 1) div 2 = pos
               \<Longrightarrow> key (h ! ((pos - 1) div 2)) \<le> key (h ! i)"
    using inv by (simp add: sink_inv_def)
  have A: "key (h' ! ((i - 1) div 2)) \<le> key (h' ! i)"
    if i: "0 < i" "i < length h'" "i \<noteq> c" "(i - 1) div 2 \<noteq> c" for i
  proof -
    consider (a) "i = pos" | (b) "i \<noteq> pos" "(i - 1) div 2 = pos"
      | (d) "i \<noteq> pos" "(i - 1) div 2 \<noteq> pos" by blast
    then show ?thesis
    proof cases
      case a
      have pp: "(pos - 1) div 2 < pos" using a i by simp
      then have "h' ! ((pos - 1) div 2) = h ! ((pos - 1) div 2)"
        using other [of "(pos - 1) div 2"] c by simp
      moreover have "key (h ! ((pos - 1) div 2)) \<le> key (h ! c)"
        using gp [of c] a i c by simp
      ultimately show ?thesis using a at_pos by simp
    next
      case b
      have "key (h ! c) \<le> key (h ! i)" using least i b len by simp
      then show ?thesis using b i at_pos other [of i] by simp
    next
      case d
      then show ?thesis using rel [of i] i len other [of i] other [of "(i - 1) div 2"] by simp
    qed
  qed
  have B: "key (h' ! ((c - 1) div 2)) \<le> key (h' ! i)"
    if i: "0 < i" "i < length h'" "(i - 1) div 2 = c" for i
  proof -
    have ic: "c < i" using i by auto
    then have "h' ! i = h ! i" using other [of i] c by simp
    moreover have "key (h ! c) \<le> key (h ! i)"
      using rel [of i] i ic c len by simp
    ultimately show ?thesis using c at_pos by simp
  qed
  show ?thesis
    unfolding sink_inv_def h'_def [symmetric] using A B by blast
qed

lemma sink_mset:
  "pos < length h \<Longrightarrow> mset (fst (snd (sink h pos))) = mset h \<and> snd (snd (sink h pos)) < length h"
proof (induction h pos rule: sink.induct)
  case (1 heap pos)
  show ?case
  proof (cases "pos < length heap div 2")
    case False
    then show ?thesis using "1.prems" by (subst sink.simps, subst (2) sink.simps) simp
  next
    case True
    show ?thesis
    proof (cases "smaller_child heap pos")
      case (Inl e)
      then show ?thesis using True "1.prems" by (subst sink.simps, subst (2) sink.simps) simp
    next
      case (Inr c)
      let ?h = "heap[c := heap ! pos, pos := heap ! c]"
      have c: "pos < c" "c < length heap" using smaller_child_bounds [OF Inr True] by auto
      have ms: "mset ?h = mset heap" using mset_swap [of pos heap c] c "1.prems" by simp
      have e: "sink heap pos = sink ?h c" using True Inr by (subst sink.simps) simp
      have "mset (fst (snd (sink ?h c))) = mset ?h \<and> snd (snd (sink ?h c)) < length ?h"
        using "1.IH" [OF True Inr] c by simp
      then show ?thesis using e ms by simp
    qed
  qed
qed

lemma sink_no_error:
  "comparable (set h) \<Longrightarrow> pos < length h \<Longrightarrow> fst (sink h pos) = None"
proof (induction h pos rule: sink.induct)
  case (1 heap pos)
  show ?case
  proof (cases "pos < length heap div 2")
    case False
    then show ?thesis by (subst sink.simps) simp
  next
    case True
    obtain c where Inr: "smaller_child heap pos = Inr c"
      using smaller_child_no_error [OF "1.prems"(1)] by blast
    let ?h = "heap[c := heap ! pos, pos := heap ! c]"
    have c: "pos < c" "c < length heap" using smaller_child_bounds [OF Inr True] by auto
    have "mset ?h = mset heap" using mset_swap [of pos heap c] c "1.prems" by simp
    then have st: "set ?h = set heap" by (metis set_mset_mset)
    have e: "sink heap pos = sink ?h c" using True Inr by (subst sink.simps) simp
    have "fst (sink ?h c) = None" using "1.IH" [OF True Inr] st "1.prems"(1) c by simp
    then show ?thesis using e by simp
  qed
qed

lemma sink_heap:
  "pos < length h \<Longrightarrow> sink_inv h pos \<Longrightarrow> fst (sink h pos) = None
     \<Longrightarrow> rise_inv (fst (snd (sink h pos))) (snd (snd (sink h pos)))"
proof (induction h pos rule: sink.induct)
  case (1 heap pos)
  show ?case
  proof (cases "pos < length heap div 2")
    case False
    then have "sink heap pos = (None, heap, pos)" by (subst sink.simps) simp
    then show ?thesis using sink_inv_leaf [OF "1.prems"(2) False] by simp
  next
    case True
    show ?thesis
    proof (cases "smaller_child heap pos")
      case (Inl e)
      then have "fst (sink heap pos) = Some e" using True by (subst sink.simps) simp
      then show ?thesis using "1.prems"(3) by simp
    next
      case (Inr c)
      let ?h = "heap[c := heap ! pos, pos := heap ! c]"
      have c: "pos < c" "c < length heap" "(c - 1) div 2 = pos"
        using smaller_child_bounds [OF Inr True] by auto
      have inv: "sink_inv ?h c"
        using sink_inv_swap [OF "1.prems"(2) c smaller_child_least [OF Inr True]] .
      have e: "sink heap pos = sink ?h c" using True Inr by (subst sink.simps) simp
      have "rise_inv (fst (snd (sink ?h c))) (snd (snd (sink ?h c)))"
        using "1.IH" [OF True Inr _ inv] c "1.prems"(3) e by simp
      then show ?thesis using e by simp
    qed
  qed
qed

lemma siftup_mset:
  "h \<noteq> [] \<Longrightarrow> mset (snd (siftup h 0)) = mset h"
proof -
  assume "h \<noteq> []"
  then have p: "0 < length h" by simp
  obtain err h1 leaf where s: "sink h 0 = (err, h1, leaf)" by (cases "sink h 0")
  have m: "mset h1 = mset h" "leaf < length h" using sink_mset [OF p] s by auto
  then have "length h1 = length h" by (metis size_mset)
  then have "mset (snd (siftdown h1 0 leaf)) = mset h1" using siftdown_mset m(2) by simp
  then show ?thesis using s m(1) by (cases err) (simp_all add: siftup_def)
qed

lemma siftup_no_error:
  assumes "comparable (set h)" and "h \<noteq> []"
  shows "fst (siftup h 0) = None"
proof -
  have p: "0 < length h" using assms(2) by simp
  obtain err h1 leaf where s: "sink h 0 = (err, h1, leaf)" by (cases "sink h 0")
  have e: "err = None" using sink_no_error [OF assms(1) p] s by simp
  have m: "mset h1 = mset h" "leaf < length h" using sink_mset [OF p] s by auto
  then have l: "length h1 = length h" by (metis size_mset)
  have "set h1 = set h" using m(1) by (metis set_mset_mset)
  then have "fst (siftdown h1 0 leaf) = None"
    using siftdown_no_error [of h1 leaf 0] assms(1) m(2) l by simp
  then show ?thesis using s e by (simp add: siftup_def)
qed

lemma siftup_heap:
  assumes "h \<noteq> []" and "sink_inv h 0" and "fst (siftup h 0) = None"
  shows "is_heap (snd (siftup h 0))"
proof -
  have p: "0 < length h" using assms(1) by simp
  obtain err h1 leaf where s: "sink h 0 = (err, h1, leaf)" by (cases "sink h 0")
  have e: "err = None" using assms(3) s by (cases err) (simp_all add: siftup_def)
  have m: "mset h1 = mset h" "leaf < length h" using sink_mset [OF p] s by auto
  then have l: "length h1 = length h" by (metis size_mset)
  have r: "rise_inv h1 leaf" using sink_heap [OF p assms(2)] s e by simp
  have u: "siftup h 0 = siftdown h1 0 leaf" using s e by (simp add: siftup_def)
  show ?thesis using siftdown_heap [of 0 leaf h1] r m(2) l assms(3) u by simp
qed

lemma heappush_mset: "mset (snd (heappush h item)) = add_mset item (mset h)"
  using siftdown_mset [of "length h" "h @ [item]" 0] by (simp add: heappush_def)

lemma heappush_no_error:
  "comparable (insert item (set h)) \<Longrightarrow> fst (heappush h item) = None"
  using siftdown_no_error [of "h @ [item]" "length h" 0] by (simp add: heappush_def)

text \<open>\<open>siftdown\<close> compares the item it moves with its ancestors only: when no other
  entry ties with that item on priority and timestamp, no comparison raises, whatever
  the other entries are.\<close>

lemma entry_lt_fresh: "key a \<noteq> key b \<Longrightarrow> entry_lt a b = Inr (key a < key b)"
proof -
  obtain p1 t1 m1 where a: "a = (p1, t1, m1)" by (cases a)
  obtain p2 t2 m2 where b: "b = (p2, t2, m2)" by (cases b)
  show "key a \<noteq> key b \<Longrightarrow> entry_lt a b = Inr (key a < key b)"
    unfolding a b entry_lt_def key_def by (auto simp: less_prod_def)
qed

lemma siftdown_fresh_no_error:
  "pos < length h \<Longrightarrow> \<forall>i<length h. i \<noteq> pos \<longrightarrow> key (h ! i) \<noteq> key (h ! pos)
     \<Longrightarrow> fst (siftdown h startpos pos) = None"
proof (induction h startpos pos rule: siftdown.induct)
  case (1 heap startpos pos)
  let ?q = "(pos - 1) div 2"
  let ?h = "heap[?q := heap ! pos, pos := heap ! ?q]"
  show ?case
  proof (cases "pos > startpos")
    case False
    then show ?thesis by (subst siftdown.simps) simp
  next
    case True
    then have q: "?q < length heap" "?q \<noteq> pos" using "1.prems"(1) by auto
    have ne: "key (heap ! pos) \<noteq> key (heap ! ?q)" using "1.prems"(2) q by metis
    have cmp: "entry_lt (heap ! pos) (heap ! ?q) = Inr (key (heap ! pos) < key (heap ! ?q))"
      using ne by (rule entry_lt_fresh)
    show ?thesis
    proof (cases "key (heap ! pos) < key (heap ! ?q)")
      case False
      then show ?thesis using True cmp by (subst siftdown.simps) simp
    next
      case lt: True
      have l: "?q < length ?h" using q by simp
      have at: "?h ! ?q = heap ! pos" using q "1.prems"(1) by simp
      have f: "\<forall>i<length ?h. i \<noteq> ?q \<longrightarrow> key (?h ! i) \<noteq> key (?h ! ?q)"
      proof (intro allI impI)
        fix i assume i: "i < length ?h" "i \<noteq> ?q"
        show "key (?h ! i) \<noteq> key (?h ! ?q)"
        proof (cases "i = pos")
          case True
          then have "?h ! i = heap ! ?q" using "1.prems"(1) by simp
          then show ?thesis using at ne by simp
        next
          case False
          then have "?h ! i = heap ! i" using i by simp
          then show ?thesis using at "1.prems"(2) i False by simp
        qed
      qed
      have "fst (siftdown ?h startpos ?q) = None"
        using "1.IH" [OF True cmp lt l f] .
      then show ?thesis using True cmp lt by (subst siftdown.simps) simp
    qed
  qed
qed

lemma heappush_fresh_no_error:
  assumes "\<forall>x\<in>set h. key x \<noteq> key item"
  shows "fst (heappush h item) = None"
proof -
  have "\<forall>i<length (h @ [item]). i \<noteq> length h
          \<longrightarrow> key ((h @ [item]) ! i) \<noteq> key ((h @ [item]) ! length h)"
    using assms by (auto simp: nth_append)
  then show ?thesis
    using siftdown_fresh_no_error [of "length h" "h @ [item]" 0] by (simp add: heappush_def)
qed

lemma heappush_heap:
  assumes "is_heap h" and "fst (heappush h item) = None"
  shows "is_heap (snd (heappush h item))"
proof -
  have A: "key ((h @ [item]) ! ((i - 1) div 2)) \<le> key ((h @ [item]) ! i)"
    if "0 < i" "i < length (h @ [item])" "i \<noteq> length h" for i
  proof -
    have i: "i < length h" using that by simp
    then have "(i - 1) div 2 < length h" by simp
    then show ?thesis using assms(1) that(1) i by (simp add: is_heap_def nth_append)
  qed
  have B: "False" if "0 < i" "i < length (h @ [item])" "(i - 1) div 2 = length h" for i
    using that by auto
  have "rise_inv (h @ [item]) (length h)"
    unfolding rise_inv_def using A B by blast
  then show ?thesis
    using siftdown_heap [of 0 "length h" "h @ [item]"] assms(2) by (simp add: heappush_def)
qed

lemma heappop_length:
  "h \<noteq> [] \<Longrightarrow> length (snd (snd (heappop h))) = length h - 1"
proof -
  assume ne: "h \<noteq> []"
  show ?thesis
  proof (cases "butlast h = []")
    case True
    then have "length h - 1 = 0" using length_butlast [of h] by simp
    then show ?thesis using ne True by (simp add: heappop_def)
  next
    case False
    let ?h0 = "(butlast h)[0 := last h]"
    have "?h0 \<noteq> []" using False by simp
    then have "mset (snd (siftup ?h0 0)) = mset ?h0" by (rule siftup_mset)
    then have "length (snd (siftup ?h0 0)) = length ?h0" by (metis size_mset)
    then show ?thesis using ne False
      by (cases "siftup ?h0 0"; cases "fst (siftup ?h0 0)") (simp_all add: heappop_def Let_def)
  qed
qed

lemma heappop_no_error:
  assumes "comparable (set h)" and "h \<noteq> []"
  shows "fst (heappop h) = None"
proof (cases "butlast h = []")
  case True
  then show ?thesis using assms(2) by (simp add: heappop_def)
next
  case False
  let ?h0 = "(butlast h)[0 := last h]"
  have u: "set ?h0 \<subseteq> insert (last h) (set (butlast h))" by (rule set_update_subset_insert)
  have "set (butlast h) \<subseteq> set h" by (auto dest: in_set_butlastD)
  moreover have "last h \<in> set h" using assms(2) by simp
  ultimately have "insert (last h) (set (butlast h)) \<subseteq> set h" by simp
  then have "set ?h0 \<subseteq> set h" using u by (rule order_trans [rotated])
  then have "comparable (set ?h0)" using assms(1) unfolding comparable_def by blast
  moreover have "?h0 \<noteq> []" using False by simp
  ultimately have "fst (siftup ?h0 0) = None" by (rule siftup_no_error)
  then show ?thesis using assms(2) False
    by (cases "siftup ?h0 0") (simp add: heappop_def Let_def)
qed

lemma heappop_heap:
  assumes "is_heap h" and "h \<noteq> []" and "fst (heappop h) = None"
  shows "fst (snd (heappop h)) = Some (h ! 0)
         \<and> add_mset (h ! 0) (mset (snd (snd (heappop h)))) = mset h
         \<and> is_heap (snd (snd (heappop h)))"
proof (cases "butlast h = []")
  case True
  then have "h = [last h]" using assms(2) by (metis append_butlast_last_id append_Nil)
  then have "h ! 0 = last h" by (metis nth_Cons_0)
  then show ?thesis using True assms(2) \<open>h = [last h]\<close>
    by (simp add: heappop_def is_heap_def)
next
  case False
  let ?b = "butlast h"
  let ?h0 = "?b[0 := last h]"
  have h: "h = ?b @ [last h]" using assms(2) by simp
  have nth_b: "\<And>i. i < length ?b \<Longrightarrow> ?b ! i = h ! i" by (simp add: nth_butlast)
  have pos: "0 < length ?b" using False by blast
  then have b0: "?b ! 0 = h ! 0" using nth_b [of 0] by blast
  have ne: "?h0 \<noteq> []" using False by simp
  have inv: "sink_inv ?h0 0"
    using assms(1) unfolding sink_inv_def is_heap_def by (auto simp: nth_butlast)
  obtain err h' where s: "siftup ?h0 0 = (err, h')" by (cases "siftup ?h0 0")
  have pop: "heappop h = (case err of Some e \<Rightarrow> (Some e, None, h') | None \<Rightarrow> (None, Some (h ! 0), h'))"
    using assms(2) False s b0 by (cases err) (simp_all add: heappop_def Let_def)
  then have e: "err = None" using assms(3) by (cases err) simp_all
  have hp: "is_heap h'" using siftup_heap [OF ne inv] s e by simp
  have "mset h' = mset ?h0" using siftup_mset [OF ne] s by simp
  moreover have "mset ?h0 = add_mset (last h) (mset ?b - {#?b ! 0#})"
    using pos by (rule mset_update)
  moreover have "mset h = add_mset (last h) (mset ?b)"
    by (metis h mset.simps(2) mset_append union_mset_add_mset_right add.right_neutral mset.simps(1))
  moreover have "?b ! 0 \<in># mset ?b" using pos by simp
  ultimately have "add_mset (h ! 0) (mset h') = mset h"
    using b0 by simp
  then show ?thesis using pop e hp by simp
qed

section \<open>PersistentQueue keeps the heap order\<close>

lemma persist_to_disk_fields [simp]:
  "queue (persist_to_disk q) = queue q"
  "max_size (persist_to_disk q) = max_size q"
  "persist_path (persist_to_disk q) = persist_path q"
  "name (persist_to_disk q) = name q"
  by (simp_all add: persist_to_disk_def split: option.splits)

lemma put_full: "is_full q \<Longrightarrow> put t m q = (Some QueueOverflowError, q)"
  by (simp add: put_def is_full_def)

lemma put_fields:
  assumes "put t m q = (err, q')"
  shows "max_size q' = max_size q \<and> persist_path q' = persist_path q \<and> name q' = name q"
proof (cases "is_full q")
  case True
  then show ?thesis using assms by (simp add: put_full)
next
  case False
  then show ?thesis using assms
    by (cases "heappush (queue q) (real_of_int (priority_value (priority m)), t, m)";
        cases "fst (heappush (queue q) (real_of_int (priority_value (priority m)), t, m))")
       (auto simp: put_def is_full_def Let_def)
qed

lemma put_queue:
  assumes "\<not> is_full q"
  shows "queue (snd (put t m q))
           = snd (heappush (queue q) (real_of_int (priority_value (priority m)), t, m))
         \<and> fst (put t m q)
           = fst (heappush (queue q) (real_of_int (priority_value (priority m)), t, m))"
  using assms
  by (cases "heappush (queue q) (real_of_int (priority_value (priority m)), t, m)";
      cases "fst (heappush (queue q) (real_of_int (priority_value (priority m)), t, m))")
     (auto simp: put_def is_full_def Let_def)

lemma put_mset:
  "\<not> is_full q \<Longrightarrow> mset (queue (snd (put t m q)))
      = add_mset (real_of_int (priority_value (priority m)), t, m) (mset (queue q))"
  by (simp add: put_queue heappush_mset)

lemma put_no_error:
  "\<not> is_full q
     \<Longrightarrow> comparable (insert (real_of_int (priority_value (priority m)), t, m) (set (queue q)))
     \<Longrightarrow> fst (put t m q) = None"
  by (simp add: put_queue heappush_no_error)

lemma put_heap:
  assumes "is_heap (queue q)" and "put t m q = (None, q')"
  shows "is_heap (queue q')"
proof -
  have nf: "\<not> is_full q" using assms(2) by (auto simp: put_full)
  have "fst (heappush (queue q) (real_of_int (priority_value (priority m)), t, m)) = None"
    using put_queue [OF nf, of t m] assms(2) by simp
  then have "is_heap (snd (heappush (queue q) (real_of_int (priority_value (priority m)), t, m)))"
    using heappush_heap [OF assms(1)] by simp
  then show ?thesis using put_queue [OF nf, of t m] assms(2) by simp
qed

lemma get_empty: "queue q = [] \<Longrightarrow> get q = (None, None, q)"
  by (simp add: get_def)

lemma get_queue:
  assumes "queue q \<noteq> []"
  shows "queue (snd (snd (get q))) = snd (snd (heappop (queue q)))
         \<and> fst (get q) = fst (heappop (queue q))
         \<and> (fst (get q) = None \<longrightarrow>
               fst (snd (get q)) = map_option (\<lambda>(p, t, message). message) (fst (snd (heappop (queue q)))))"
  using assms
  by (cases "heappop (queue q)"; cases "fst (heappop (queue q))")
     (auto simp: get_def)

lemma get_fields:
  "max_size (snd (snd (get q))) = max_size q \<and> persist_path (snd (snd (get q))) = persist_path q
   \<and> name (snd (snd (get q))) = name q"
  by (cases "heappop (queue q)"; cases "fst (heappop (queue q))") (auto simp: get_def)

lemma get_length:
  "queue q \<noteq> [] \<Longrightarrow> length (queue (snd (snd (get q)))) = length (queue q) - 1"
  by (simp add: get_queue heappop_length)

lemma get_no_error: "comparable (set (queue q)) \<Longrightarrow> fst (get q) = None"
  by (cases "queue q = []") (simp_all add: get_empty get_queue heappop_no_error)

lemma get_heap:
  assumes "is_heap (queue q)" and "queue q \<noteq> []" and "get q = (None, r, q')"
  shows "r = Some (snd (snd (queue q ! 0)))
         \<and> add_mset (queue q ! 0) (mset (queue q')) = mset (queue q)
         \<and> is_heap (queue q')"
proof -
  have e: "fst (heappop (queue q)) = None" using get_queue [OF assms(2)] assms(3) by simp
  have h: "fst (snd (heappop (queue q))) = Some (queue q ! 0)"
      "add_mset (queue q ! 0) (mset (snd (snd (heappop (queue q))))) = mset (queue q)"
      "is_heap (snd (snd (heappop (queue q))))"
    using heappop_heap [OF assms(1,2) e] by auto
  have "r = map_option (\<lambda>(p, t, message). message) (fst (snd (heappop (queue q))))"
    using get_queue [OF assms(2)] assms(3) by simp
  then have "r = Some (snd (snd (queue q ! 0)))" using h(1) by (simp add: case_prod_unfold)
  moreover have "queue q' = snd (snd (heappop (queue q)))"
    using get_queue [OF assms(2)] assms(3) by simp
  ultimately show ?thesis using h(2,3) by simp
qed

text \<open>
  The queues a run can reach without an exception: the queue as constructed with no
  file to load, and what \<open>put\<close>, \<open>get\<close> and \<open>clear\<close> make of a queue when they return.
\<close>

inductive reachable :: "PersistentQueue \<Rightarrow> bool" where
  reachable_init: "reachable (PersistentQueue_init ctor nm cap path None)"
| reachable_put: "reachable q \<Longrightarrow> put t m q = (None, q') \<Longrightarrow> reachable q'"
| reachable_get: "reachable q \<Longrightarrow> get q = (None, r, q') \<Longrightarrow> reachable q'"
| reachable_clear: "reachable q \<Longrightarrow> reachable (clear q)"

definition keyed_by_priority :: "entry list \<Rightarrow> bool" where
  "keyed_by_priority h = (\<forall>(p, t, m) \<in> set h. p = real_of_int (priority_value (priority m)))"

lemma reachable_heap: "reachable q \<Longrightarrow> is_heap (queue q) \<and> keyed_by_priority (queue q)"
proof (induction rule: reachable.induct)
  case (reachable_init ctor nm cap path)
  then show ?case
    by (simp add: PersistentQueue_init_def load_from_disk_def is_heap_def keyed_by_priority_def
        split: option.splits)
next
  case (reachable_put q t m q')
  have nf: "\<not> is_full q" using reachable_put.hyps(2) by (auto simp: put_full)
  have "mset (queue q') = add_mset (real_of_int (priority_value (priority m)), t, m) (mset (queue q))"
    using put_mset [OF nf, of t m] reachable_put.hyps(2) by simp
  then have "set (queue q') = insert (real_of_int (priority_value (priority m)), t, m) (set (queue q))"
    by (metis set_mset_add_mset_insert set_mset_mset)
  then have "keyed_by_priority (queue q')"
    using reachable_put.IH by (simp add: keyed_by_priority_def)
  then show ?case using put_heap [OF _ reachable_put.hyps(2)] reachable_put.IH by simp
next
  case (reachable_get q r q')
  show ?case
  proof (cases "queue q = []")
    case True
    then show ?thesis using reachable_get get_empty [OF True] by simp
  next
    case False
    have g: "add_mset (queue q ! 0) (mset (queue q')) = mset (queue q)" "is_heap (queue q')"
      using get_heap [OF _ False reachable_get.hyps(2)] reachable_get.IH by auto
    have "set (queue q') \<subseteq> set (queue q)"
      using g(1) by (metis set_mset_mset set_mset_add_mset_insert subset_insertI)
    then have "keyed_by_priority (queue q')"
      using reachable_get.IH unfolding keyed_by_priority_def by blast
    then show ?thesis using g(2) by simp
  qed
next
  case (reachable_clear q)
  then show ?case by (simp add: clear_def is_heap_def keyed_by_priority_def)
qed

lemma is_heap_least:
  assumes "is_heap h" and "x \<in> set h"
  shows "key (h ! 0) \<le> key x"
proof -
  obtain i where "i < length h" "h ! i = x" using assms(2) by (auto simp: in_set_conv_nth)
  then show ?thesis using is_heap_root_le [OF assms(1)] by auto
qed

text \<open>Messages for the evaluations below.\<close>

definition sample_message :: "string \<Rightarrow> MessagePriority \<Rightarrow> StandardMessage" where
  "sample_message i p =
     \<lparr> msg_id = i, msg_type = HEARTBEAT, sender = ''agent'', recipient = None, timestamp = 0,
       priority = p, ttl = None, correlation_id = None, metadata = [], retry_count = 0,
       max_retries = 3, kind = StandardOnly \<rparr>"

section \<open>Claims about PersistentQueue\<close>

text \<open>
  The order of \<open>get\<close> away from ties. In a queue reached by calls of \<open>put\<close>, \<open>get\<close> and
  \<open>clear\<close> that returned, with no two different entries sharing priority and timestamp:
  when an entry of \<open>m1\<close> and an entry of \<open>m2\<close> are both queued, and \<open>m1\<close> has the smaller
  priority value, or the same priority value and the earlier enqueue timestamp, then
  \<open>get\<close> returns a message, removes exactly the entry of that message, leaves the entry
  of \<open>m2\<close> in the queue, and the message returned is at least as urgent as \<open>m1\<close>
  (smaller priority value, or the same and no later timestamp). So \<open>m2\<close> is never
  returned while \<open>m1\<close> waits, in whichever order the two were enqueued.
\<close>

theorem get_returns_most_urgent:
  assumes "reachable q" and "comparable (set (queue q))"
    and "(p1, t1, m1) \<in> set (queue q)" and "(p2, t2, m2) \<in> set (queue q)"
    and "priority_value (priority m1) < priority_value (priority m2)
         \<or> (priority_value (priority m1) = priority_value (priority m2) \<and> t1 < t2)"
  shows "\<exists>p t m q'. get q = (None, Some m, q')
           \<and> add_mset (p, t, m) (mset (queue q')) = mset (queue q)
           \<and> (p, t, m) \<noteq> (p2, t2, m2) \<and> (p2, t2, m2) \<in> set (queue q')
           \<and> (priority_value (priority m) < priority_value (priority m1)
                \<or> (priority_value (priority m) = priority_value (priority m1) \<and> t \<le> t1))"
proof -
  have hp: "is_heap (queue q)" and kp: "keyed_by_priority (queue q)"
    using reachable_heap [OF assms(1)] by auto
  have ne: "queue q \<noteq> []" using assms(3) by auto
  obtain p t m where root: "queue q ! 0 = (p, t, m)" by (cases "queue q ! 0")
  have rin: "(p, t, m) \<in> set (queue q)" using ne root by (metis length_greater_0_conv nth_mem)
  obtain r q' where g: "get q = (None, r, q')"
    using get_no_error [OF assms(2)] by (cases "get q") auto
  have gh: "r = Some m" "add_mset (p, t, m) (mset (queue q')) = mset (queue q)"
    using get_heap [OF hp ne g] root by auto
  have p: "p = real_of_int (priority_value (priority m))"
    and p1: "p1 = real_of_int (priority_value (priority m1))"
    and p2: "p2 = real_of_int (priority_value (priority m2))"
    using kp rin assms(3,4) unfolding keyed_by_priority_def by auto
  have le: "(p, t) \<le> (p1, t1)"
    using is_heap_least [OF hp assms(3)] root by (simp add: key_def)
  have lt: "(p1, t1) < (p2, t2)"
    using assms(5) p1 p2 by (auto simp: less_prod_def)
  have neq: "(p, t, m) \<noteq> (p2, t2, m2)" using le lt by auto
  have "(p2, t2, m2) \<in># add_mset (p, t, m) (mset (queue q'))"
    using gh(2) assms(4) by simp
  then have in2: "(p2, t2, m2) \<in> set (queue q')" using neq by auto
  have urg: "priority_value (priority m) < priority_value (priority m1)
             \<or> (priority_value (priority m) = priority_value (priority m1) \<and> t \<le> t1)"
    using le p p1 by (auto simp: less_eq_prod_def)
  show ?thesis using g gh neq in2 urg by blast
qed

lemmas heap_eval =
  put_def get_def heappush_def heappop_def siftup_def siftdown.simps sink.simps
  smaller_child_def entry_lt_def persist_to_disk_def is_full_def

text \<open>The instance: a NORMAL message enqueued at time 1 and a CRITICAL one at time 2;
  \<open>get\<close> returns the CRITICAL one and the NORMAL one stays.\<close>

theorem get_returns_most_urgent_witness:
  "\<exists>q'. get (snd (put 2 (sample_message ''b'' CRITICAL)
              (snd (put 1 (sample_message ''a'' NORMAL)
                 (PersistentQueue_init (\<lambda>c d. Inl TypeError) ''main'' 10 None None)))))
          = (None, Some (sample_message ''b'' CRITICAL), q')
        \<and> queue q' = [(3, 1, sample_message ''a'' NORMAL)]"
proof -
  let ?a = "sample_message ''a'' NORMAL" and ?b = "sample_message ''b'' CRITICAL"
  let ?q0 = "PersistentQueue_init (\<lambda>c d. Inl TypeError) ''main'' 10 None None"
  let ?q1 = "?q0\<lparr>queue := [(3, 1, ?a)]\<rparr>"
  let ?q2 = "?q0\<lparr>queue := [(1, 2, ?b), (3, 1, ?a)]\<rparr>"
  have q0: "?q0 = \<lparr> name = ''main'', max_size = 10, persist_path = None, queue = [], stored = None \<rparr>"
    by (simp add: PersistentQueue_init_def load_from_disk_def)
  have p1: "put 1 ?a ?q0 = (None, ?q1)"
    by (simp add: q0 heap_eval sample_message_def)
  have p2: "put 2 ?b ?q1 = (None, ?q2)"
    by (simp add: q0 heap_eval sample_message_def)
  have r: "reachable ?q2"
    using reachable_put [OF reachable_put [OF reachable_init p1] p2] .
  have c: "comparable (set (queue ?q2))"
    by (simp add: comparable_def key_def)
  obtain p t m q' where g: "get ?q2 = (None, Some m, q')"
      "add_mset (p, t, m) (mset (queue q')) = mset (queue ?q2)"
      "(p, t, m) \<noteq> (3, 1, ?a)" "(3, 1, ?a) \<in> set (queue q')"
    using get_returns_most_urgent [OF r c, of 1 2 ?b 3 1 ?a]
    by (auto simp: sample_message_def)
  have "get ?q2 = (None, Some ?b, ?q1)"
    by (simp add: q0 heap_eval sample_message_def)
  then show ?thesis using g p1 p2 by simp
qed

text \<open>Three messages enqueued in an empty queue: a CRITICAL one at clock reading 1 and
  two NORMAL ones that read the same clock value 2.\<close>

definition tie_queue :: PersistentQueue where
  "tie_queue =
     snd (put 2 (sample_message ''b'' NORMAL)
       (snd (put 2 (sample_message ''a'' NORMAL)
         (snd (put 1 (sample_message ''c'' CRITICAL)
           (PersistentQueue_init (\<lambda>c d. Inl TypeError) ''main'' 10 None None))))))"

text \<open>
  C1 at a tie. The three calls of \<open>put\<close> return and the queue holds the three entries.
  The next \<open>get\<close> raises \<open>TypeError\<close>: \<open>heappop\<close> has taken the CRITICAL entry from the
  root, and sifting the last entry compares the two NORMAL entries, which tie on priority
  and timestamp, by their messages. The CRITICAL message is returned to nobody and is no
  longer queued; the \<open>get\<close> after that returns a NORMAL message.
\<close>

theorem get_tie_loses_most_urgent:
  "reachable tie_queue
   \<and> queue tie_queue
       = [(1, 1, sample_message ''c'' CRITICAL), (3, 2, sample_message ''a'' NORMAL),
          (3, 2, sample_message ''b'' NORMAL)]
   \<and> get tie_queue
       = (Some TypeError, None,
          tie_queue\<lparr>queue := [(3, 2, sample_message ''a'' NORMAL),
                              (3, 2, sample_message ''b'' NORMAL)]\<rparr>)
   \<and> fst (snd (get (snd (snd (get tie_queue))))) = Some (sample_message ''a'' NORMAL)"
proof -
  let ?a = "sample_message ''a'' NORMAL" and ?b = "sample_message ''b'' NORMAL"
    and ?c = "sample_message ''c'' CRITICAL"
  let ?q0 = "PersistentQueue_init (\<lambda>c d. Inl TypeError) ''main'' 10 None None"
  let ?q1 = "?q0\<lparr>queue := [(1, 1, ?c)]\<rparr>"
  let ?q2 = "?q0\<lparr>queue := [(1, 1, ?c), (3, 2, ?a)]\<rparr>"
  let ?q3 = "?q0\<lparr>queue := [(1, 1, ?c), (3, 2, ?a), (3, 2, ?b)]\<rparr>"
  have q0: "?q0 = \<lparr> name = ''main'', max_size = 10, persist_path = None, queue = [], stored = None \<rparr>"
    by (simp add: PersistentQueue_init_def load_from_disk_def)
  have p1: "put 1 ?c ?q0 = (None, ?q1)"
    by (simp add: q0 heap_eval sample_message_def)
  have p2: "put 2 ?a ?q1 = (None, ?q2)"
    by (simp add: q0 heap_eval sample_message_def)
  have p3: "put 2 ?b ?q2 = (None, ?q3)"
    by (simp add: q0 heap_eval sample_message_def)
  have t: "tie_queue = ?q3" by (simp add: tie_queue_def p1 p2 p3)
  have r: "reachable ?q3"
    using reachable_put [OF reachable_put [OF reachable_put [OF reachable_init p1] p2] p3] .
  have g: "get ?q3 = (Some TypeError, None, ?q3\<lparr>queue := [(3, 2, ?a), (3, 2, ?b)]\<rparr>)"
    by (simp add: q0 heap_eval sample_message_def)
  have g2: "fst (snd (get (?q3\<lparr>queue := [(3, 2, ?a), (3, 2, ?b)]\<rparr>))) = Some ?a"
    by (simp add: q0 heap_eval sample_message_def)
  show ?thesis using r g g2 unfolding t by (simp add: q0)
qed

section \<open>The bus: publishing\<close>

text \<open>
  A queue \<open>accepts\<close> a message stamped \<open>t\<close> when it is below capacity and no queued
  entry ties with the new entry on priority and timestamp: then \<open>put\<close> returns, the
  queue holds the new entry and has one entry more.
\<close>

definition accepts :: "PersistentQueue \<Rightarrow> StandardMessage \<Rightarrow> real \<Rightarrow> bool" where
  "accepts q message t =
     (\<not> is_full q
      \<and> (\<forall>x\<in>set (queue q). key x \<noteq> (real_of_int (priority_value (priority message)), t)))"

lemma put_accepts:
  assumes "accepts q m t"
  shows "\<exists>q'. put t m q = (None, q')
           \<and> mset (queue q') = add_mset (real_of_int (priority_value (priority m)), t, m) (mset (queue q))
           \<and> (real_of_int (priority_value (priority m)), t, m) \<in> set (queue q')
           \<and> length (queue q') = Suc (length (queue q))
           \<and> max_size q' = max_size q \<and> persist_path q' = persist_path q \<and> name q' = name q"
proof -
  let ?x = "(real_of_int (priority_value (priority m)), t, m)"
  have nf: "\<not> is_full q" using assms by (simp add: accepts_def)
  have "\<forall>x\<in>set (queue q). key x \<noteq> key ?x"
    using assms by (simp add: accepts_def key_def)
  then have "fst (heappush (queue q) ?x) = None" by (rule heappush_fresh_no_error)
  then have "fst (put t m q) = None" using put_queue [OF nf, of t m] by simp
  then obtain q' where p: "put t m q = (None, q')" by (cases "put t m q") auto
  have ms: "mset (queue q') = add_mset ?x (mset (queue q))"
    using p put_mset [OF nf, of t m] by simp
  then have "?x \<in># mset (queue q')" by simp
  then have mem: "?x \<in> set (queue q')" by simp
  have "size (mset (queue q')) = Suc (size (mset (queue q)))" using ms by simp
  then have len: "length (queue q') = Suc (length (queue q))" by simp
  show ?thesis using p ms mem len put_fields [OF p] by simp
qed

lemma put_main_full:
  "is_full (main_queue b) \<Longrightarrow> put_main e m b = (Some QueueOverflowError, b)"
  by (simp add: put_main_def put_full)


lemma put_main_not_full:
  "\<not> is_full (main_queue b) \<Longrightarrow>
     put_main e m b = (fst (put (clock e (ticks b)) m (main_queue b)),
                       (tick b)\<lparr>main_queue := snd (put (clock e (ticks b)) m (main_queue b))\<rparr>)"
  by (simp add: put_main_def now_def split: prod.splits)


text \<open>The state \<open>publish\<close> leaves when validation fails: only the clock readings and the
  latency sample of the \<open>finally\<close> block are new.\<close>

lemma publish_invalid:
  assumes "validate_message (serialize e) (clock e (Suc (ticks b))) m = errs" and "errs \<noteq> []"
  shows "publish e m True b =
           (Some (MessageCorruptionError errs),
            b\<lparr>ticks := ticks b + (if ttl m = None then 2 else 3),
              latency_samples := append_maxlen 1000 (latency_samples b)
                ((clock e (ticks b + (if ttl m = None then 1 else 2)) - clock e (ticks b)) * 1000)\<rparr>)"
  using assms by (simp add: publish_def run_validation_def now_def tick_def Let_def)

text \<open>When the message passes validation (or validation is off), \<open>publish\<close> is the \<open>put\<close>
  on the main queue followed by the bookkeeping.\<close>

definition put_tick :: "StandardMessage \<Rightarrow> bool \<Rightarrow> MessageBus \<Rightarrow> nat" where
  "put_tick m validate b = ticks b + (if validate \<and> ttl m \<noteq> None then 2 else 1)"

lemma publish_valid:
  assumes "validate \<longrightarrow> validate_message (serialize e) (clock e (Suc (ticks b))) m = []"
  shows "publish e m validate b =
     (case (case put_main e m (b\<lparr>ticks := put_tick m validate b\<rparr>) of
              (None, b') \<Rightarrow>
                (None,
                 (tick b')\<lparr>metrics := (metrics b')
                              \<lparr>messages_published := messages_published (metrics b') + 1\<rparr>,
                           throughput_window :=
                              append_maxlen 60 (throughput_window b') (now e b')\<rparr>)
            | (Some QueueOverflowError, b') \<Rightarrow>
                (Some QueueOverflowError,
                 b'\<lparr>metrics := (metrics b')
                       \<lparr>queue_overflows := queue_overflows (metrics b') + 1\<rparr>\<rparr>)
            | (Some err, b') \<Rightarrow> (Some err, b')) of
        (outcome, b3) \<Rightarrow>
          (outcome,
           (tick b3)\<lparr>latency_samples :=
              append_maxlen 1000 (latency_samples b3) ((now e b3 - clock e (ticks b)) * 1000)\<rparr>))"
  using assms
  by (cases validate; cases "ttl m")
     (simp_all add: publish_def run_validation_def now_def tick_def Let_def put_tick_def)

lemma publish_overflow:
  assumes "validate \<longrightarrow> validate_message (serialize e) (clock e (Suc (ticks b))) m = []"
    and "is_full (main_queue b)"
  shows "publish e m validate b =
           (Some QueueOverflowError,
            b\<lparr>ticks := put_tick m validate b + 1,
              metrics := (metrics b)\<lparr>queue_overflows := queue_overflows (metrics b) + 1\<rparr>,
              latency_samples := append_maxlen 1000 (latency_samples b)
                ((clock e (put_tick m validate b) - clock e (ticks b)) * 1000)\<rparr>)"
proof -
  have "is_full (main_queue (b\<lparr>ticks := put_tick m validate b\<rparr>))" using assms(2) by simp
  then show ?thesis
    by (simp add: publish_valid [OF assms(1)] put_main_full now_def tick_def)
qed

lemma publish_enqueues:
  assumes "validate \<longrightarrow> validate_message (serialize e) (clock e (Suc (ticks b))) m = []"
    and "put (clock e (put_tick m validate b)) m (main_queue b) = (None, q')"
  shows "publish e m validate b =
           (None,
            b\<lparr>main_queue := q',
              ticks := put_tick m validate b + 3,
              metrics := (metrics b)\<lparr>messages_published := messages_published (metrics b) + 1\<rparr>,
              throughput_window := append_maxlen 60 (throughput_window b)
                (clock e (put_tick m validate b + 1)),
              latency_samples := append_maxlen 1000 (latency_samples b)
                ((clock e (put_tick m validate b + 2) - clock e (ticks b)) * 1000)\<rparr>)"
proof -
  have nf: "\<not> is_full (main_queue (b\<lparr>ticks := put_tick m validate b\<rparr>))"
    using assms(2) by (auto simp: put_full)
  show ?thesis
    by (simp add: publish_valid [OF assms(1)] put_main_not_full [OF nf] assms(2) now_def tick_def)
qed

lemma publish_raises:
  assumes "validate \<longrightarrow> validate_message (serialize e) (clock e (Suc (ticks b))) m = []"
    and "put (clock e (put_tick m validate b)) m (main_queue b) = (Some x, q')"
  shows "fst (publish e m validate b) = Some x"
proof (cases "is_full (main_queue b)")
  case True
  then show ?thesis using publish_overflow [OF assms(1) True] assms(2) by (simp add: put_full)
next
  case False
  then have nf: "\<not> is_full (main_queue (b\<lparr>ticks := put_tick m validate b\<rparr>))" by simp
  show ?thesis
    by (cases x)
       (simp_all add: publish_valid [OF assms(1)] put_main_not_full [OF nf] assms(2) now_def
          tick_def)
qed

lemma publish_None:
  assumes "publish e m validate b = (None, b')"
  shows "(validate \<longrightarrow> validate_message (serialize e) (clock e (Suc (ticks b))) m = [])
         \<and> put (clock e (put_tick m validate b)) m (main_queue b) = (None, main_queue b')"
proof -
  have v: "validate \<longrightarrow> validate_message (serialize e) (clock e (Suc (ticks b))) m = []"
  proof (rule ccontr)
    assume "\<not> ?thesis"
    then have "validate" "validate_message (serialize e) (clock e (Suc (ticks b))) m \<noteq> []" by auto
    then show False using publish_invalid [OF refl, of e b m] assms by simp
  qed
  obtain err q' where p: "put (clock e (put_tick m validate b)) m (main_queue b) = (err, q')"
    by (cases "put (clock e (put_tick m validate b)) m (main_queue b)")
  show ?thesis
  proof (cases "is_full (main_queue b)")
    case True
    then show ?thesis using publish_overflow [OF v True] assms by simp
  next
    case False
    show ?thesis
    proof (cases err)
      case None
      then show ?thesis using publish_enqueues [OF v] p assms v by simp
    next
      case (Some x)
      then show ?thesis using publish_raises [OF v] p assms by simp
    qed
  qed
qed

text \<open>An environment for the evaluations below: every message serializes to two bytes,
  the n-th clock reading is n seconds.\<close>

definition sample_env :: env where
  "sample_env = \<lparr> serialize = (\<lambda>m. Some ''{}''), clock = real, isoformat = (\<lambda>t. ''now'') \<rparr>"

definition sample_bus :: "int \<Rightarrow> int \<Rightarrow> MessageBus" where
  "sample_bus cap dlq_cap = MessageBus_init (\<lambda>c d. Inl TypeError) cap dlq_cap ''data'' False None None"

lemma sample_bus_eq:
  "sample_bus cap dlq_cap =
     \<lparr> main_queue = \<lparr> name = ''main'', max_size = cap, persist_path = None, queue = [], stored = None \<rparr>,
       dead_letter_queue =
         \<lparr> name = ''dead_letter'', max_size = dlq_cap, persist_path = None, queue = [], stored = None \<rparr>,
       subscriptions = [],
       metrics = \<lparr> messages_published = 0, messages_delivered = 0, messages_failed = 0,
                   messages_dlq = 0, delivery_errors = 0, queue_overflows = 0,
                   avg_latency_ms = 0, throughput_per_sec = 0 \<rparr>,
       latency_samples = [], throughput_window = [], running = False, ticks = 0, slept = [] \<rparr>"
  by (simp add: sample_bus_def MessageBus_init_def PersistentQueue_init_def load_from_disk_def)

text \<open>
  C3. With validation on, a message that violates a validation rule (in particular one
  whose serialized size exceeds 1024 bytes, and a request that requires a response and
  has no recipient) makes \<open>publish\<close> raise \<open>MessageCorruptionError\<close> with a non-empty list
  of violations; the main queue, the dead-letter queue and the counters are as before, so
  \<open>get\<close> on the main queue returns what it would have returned without the call.
\<close>

theorem publish_rejects_invalid:
  assumes "(\<exists>bytes. serialize e message = Some bytes \<and> length bytes > 1024)
           \<or> (\<exists>action payload timeout.
                 kind message = AgentRequest action payload True timeout \<and> recipient message = None)
           \<or> validate_message (serialize e) (clock e (Suc (ticks b))) message \<noteq> []"
  shows "\<exists>errs b'. errs \<noteq> []
           \<and> publish e message True b = (Some (MessageCorruptionError errs), b')
           \<and> main_queue b' = main_queue b \<and> get (main_queue b') = get (main_queue b)
           \<and> dead_letter_queue b' = dead_letter_queue b \<and> metrics b' = metrics b"
proof -
  let ?errs = "validate_message (serialize e) (clock e (Suc (ticks b))) message"
  have "?errs \<noteq> []"
    using assms by (auto simp: validate_message_def get_size_bytes_def)
  then show ?thesis using publish_invalid [OF refl, of e b message] by simp
qed

theorem publish_rejects_invalid_witness:
  "\<exists>b'. publish sample_env
          ((sample_message ''r'' NORMAL)\<lparr>kind := AgentRequest ''get_user'' [] True 30\<rparr>) True
          (sample_bus 10 10)
        = (Some (MessageCorruptionError [MissingRecipient]), b')
      \<and> main_queue b' = main_queue (sample_bus 10 10)"
proof -
  let ?m = "(sample_message ''r'' NORMAL)\<lparr>kind := AgentRequest ''get_user'' [] True 30\<rparr>"
  have v: "validate_message (serialize sample_env) (clock sample_env (Suc (ticks (sample_bus 10 10)))) ?m
             = [MissingRecipient]"
    by (simp add: validate_message_def get_size_bytes_def sample_env_def sample_message_def
        is_expired_def)
  have "\<exists>action payload timeout.
          kind ?m = AgentRequest action payload True timeout \<and> recipient ?m = None"
    by (simp add: sample_message_def)
  then obtain errs b' where r: "errs \<noteq> []"
      "publish sample_env ?m True (sample_bus 10 10) = (Some (MessageCorruptionError errs), b')"
      "main_queue b' = main_queue (sample_bus 10 10)"
    using publish_rejects_invalid [of sample_env ?m "sample_bus 10 10"] by blast
  have "errs = [MissingRecipient]"
    using r(2) publish_invalid [OF v] by simp
  then show ?thesis using r by simp
qed

text \<open>
  C4. \<open>put\<close> on a queue whose size is at least its capacity raises \<open>QueueOverflowError\<close>
  and leaves the queue as it is. On a bus whose main queue has capacity 2 and is empty,
  after two calls of \<open>publish\<close> that returned, a third \<open>publish\<close> (of a message that
  passes validation, when validation is on) raises \<open>QueueOverflowError\<close>, leaves the
  main queue as it is, of size 2, and counts one overflow.
\<close>

theorem put_overflow:
  "(int (length (queue q)) \<ge> max_size q \<longrightarrow> put t m q = (Some QueueOverflowError, q))
   \<and> (max_size (main_queue b) = 2 \<and> queue (main_queue b) = []
        \<and> publish e m1 v1 b = (None, b1) \<and> publish e m2 v2 b1 = (None, b2)
        \<and> (v3 \<longrightarrow> validate_message (serialize e) (clock e (Suc (ticks b2))) m3 = [])
      \<longrightarrow> (\<exists>b3. publish e m3 v3 b2 = (Some QueueOverflowError, b3)
             \<and> main_queue b3 = main_queue b2 \<and> qsize (main_queue b3) = 2
             \<and> queue_overflows (metrics b3) = queue_overflows (metrics b2) + 1))"
proof (intro conjI impI)
  assume "int (length (queue q)) \<ge> max_size q"
  then show "put t m q = (Some QueueOverflowError, q)" by (simp add: put_def)
next
  assume a: "max_size (main_queue b) = 2 \<and> queue (main_queue b) = []
        \<and> publish e m1 v1 b = (None, b1) \<and> publish e m2 v2 b1 = (None, b2)
        \<and> (v3 \<longrightarrow> validate_message (serialize e) (clock e (Suc (ticks b2))) m3 = [])"
  have p1: "put (clock e (put_tick m1 v1 b)) m1 (main_queue b) = (None, main_queue b1)"
    using a publish_None by blast
  have p2: "put (clock e (put_tick m2 v2 b1)) m2 (main_queue b1) = (None, main_queue b2)"
    using a publish_None by blast
  have nf1: "\<not> is_full (main_queue b)" using p1 by (auto simp: put_full)
  have nf2: "\<not> is_full (main_queue b1)" using p2 by (auto simp: put_full)
  have "size (mset (queue (main_queue b1))) = 1"
    using put_mset [OF nf1, of "clock e (put_tick m1 v1 b)" m1] p1 a by simp
  then have l1: "length (queue (main_queue b1)) = 1" by simp
  have "size (mset (queue (main_queue b2))) = 2"
    using put_mset [OF nf2, of "clock e (put_tick m2 v2 b1)" m2] p2 l1 by simp
  then have l2: "length (queue (main_queue b2)) = 2" by simp
  have "max_size (main_queue b2) = 2" using put_fields [OF p1] put_fields [OF p2] a by simp
  then have full: "is_full (main_queue b2)" using l2 by (simp add: is_full_def)
  have v: "v3 \<longrightarrow> validate_message (serialize e) (clock e (Suc (ticks b2))) m3 = []"
    using a by simp
  show "\<exists>b3. publish e m3 v3 b2 = (Some QueueOverflowError, b3)
             \<and> main_queue b3 = main_queue b2 \<and> qsize (main_queue b3) = 2
             \<and> queue_overflows (metrics b3) = queue_overflows (metrics b2) + 1"
    using publish_overflow [OF v full] l2 by (simp add: qsize_def)
qed


lemmas bus_eval =
  publish_def run_validation_def validate_message_def get_size_bytes_def is_expired_def
  now_def tick_def sleep_def put_main_def put_dlq_def get_main_def get_dlq_def append_maxlen_def
  sample_env_def sample_message_def sample_bus_eq heap_eval

theorem put_overflow_witness:
  "\<exists>b3. publish sample_env (sample_message ''c'' NORMAL) True
           (snd (publish sample_env (sample_message ''b'' NORMAL) True
              (snd (publish sample_env (sample_message ''a'' NORMAL) True (sample_bus 2 10)))))
         = (Some QueueOverflowError, b3)
       \<and> qsize (main_queue b3) = 2"
proof -
  let ?b0 = "sample_bus 2 10"
  let ?b1 = "snd (publish sample_env (sample_message ''a'' NORMAL) True ?b0)"
  let ?b2 = "snd (publish sample_env (sample_message ''b'' NORMAL) True ?b1)"
  have e1: "publish sample_env (sample_message ''a'' NORMAL) True ?b0 = (None, ?b1)"
    by (simp add: bus_eval Let_def)
  have e2: "publish sample_env (sample_message ''b'' NORMAL) True ?b1 = (None, ?b2)"
    by (simp add: bus_eval Let_def)
  have v: "validate_message (serialize sample_env) (clock sample_env (Suc (ticks ?b2)))
             (sample_message ''c'' NORMAL) = []"
    by (simp add: validate_message_def get_size_bytes_def is_expired_def sample_env_def
        sample_message_def)
  have c: "max_size (main_queue ?b0) = 2 \<and> queue (main_queue ?b0) = []"
    by (simp add: sample_bus_eq)
  show ?thesis
    using put_overflow [where b = ?b0 and e = sample_env and ?m1.0 = "sample_message ''a'' NORMAL"
        and ?v1.0 = True and ?b1.0 = ?b1 and ?m2.0 = "sample_message ''b'' NORMAL" and ?v2.0 = True
        and ?b2.0 = ?b2 and ?v3.0 = True and ?m3.0 = "sample_message ''c'' NORMAL"] e1 e2 v c
    by blast
qed

section \<open>The bus: dispatch, retry and dead letters\<close>

lemma map_of_dict_set_same [simp]: "map_of (dict_set d k v) k = Some v"
  by (induction d) auto

lemma map_of_dict_set_other [simp]: "k' \<noteq> k \<Longrightarrow> map_of (dict_set d k v) k' = map_of d k'"
  by (induction d) auto

lemma map_of_dict_pop_same [simp]: "map_of (dict_pop d k) k = None"
  by (induction d) (auto simp: dict_pop_def)

lemma map_of_dict_pop_other [simp]: "k' \<noteq> k \<Longrightarrow> map_of (dict_pop d k) k' = map_of d k'"
  by (induction d) (auto simp: dict_pop_def)

text \<open>The message as \<open>_send_to_dlq\<close> stamps it, at the clock reading \<open>t\<close>.\<close>

definition dlq_stamped :: "env \<Rightarrow> real \<Rightarrow> string \<Rightarrow> StandardMessage \<Rightarrow> StandardMessage" where
  "dlq_stamped e t reason m =
     m\<lparr>metadata := dict_set (dict_set (metadata m) ''dlq_reason'' (PStr reason))
                      ''dlq_timestamp'' (PStr (isoformat e t))\<rparr>"


lemma dlq_stamped_fields:
  "msg_id (dlq_stamped e t reason m) = msg_id m"
  "priority (dlq_stamped e t reason m) = priority m"
  "retry_count (dlq_stamped e t reason m) = retry_count m"
  "(dlq_stamped e t reason m)\<lparr>metadata := metadata m\<rparr> = m"
  by (simp_all add: dlq_stamped_def)



lemma handle_delivery_failure_retry:
  assumes "should_retry m"
    and "put (clock e (ticks b)) (increment_retry m) (main_queue b) = (None, q')"
  shows "handle_delivery_failure e m reason b =
           (None, b\<lparr>main_queue := q', ticks := Suc (ticks b),
                    metrics := (metrics b)\<lparr>messages_failed := messages_failed (metrics b) + 1\<rparr>,
                    slept := slept b @ [0.1 * real_of_int (retry_count m + 1)]\<rparr>)"
proof -
  let ?b2 = "sleep (0.1 * real_of_int (retry_count (increment_retry m)))
               (b\<lparr>metrics := (metrics b)\<lparr>messages_failed := messages_failed (metrics b) + 1\<rparr>\<rparr>)"
  have nf: "\<not> is_full (main_queue ?b2)"
    using assms(2) by (auto simp: put_full sleep_def)
  have "put_main e (increment_retry m) ?b2
          = (fst (put (clock e (ticks ?b2)) (increment_retry m) (main_queue ?b2)),
             (tick ?b2)\<lparr>main_queue :=
                snd (put (clock e (ticks ?b2)) (increment_retry m) (main_queue ?b2))\<rparr>)"
    by (rule put_main_not_full [OF nf])
  moreover have "ticks ?b2 = ticks b" "main_queue ?b2 = main_queue b"
    by (simp_all add: sleep_def)
  ultimately have "put_main e (increment_retry m) ?b2 = (None, (tick ?b2)\<lparr>main_queue := q'\<rparr>)"
    using assms(2) by simp
  then have "handle_delivery_failure e m reason b = (None, (tick ?b2)\<lparr>main_queue := q'\<rparr>)"
    using assms(1) by (simp add: handle_delivery_failure_def Let_def)
  then show ?thesis
    by (simp add: sleep_def tick_def increment_retry_def)
qed


lemma put_main_subscriptions: "subscriptions (snd (put_main e m b)) = subscriptions b"
  by (simp add: put_main_def tick_def split: prod.splits)

lemma put_dlq_subscriptions: "subscriptions (snd (put_dlq e m b)) = subscriptions b"
  by (simp add: put_dlq_def tick_def split: prod.splits)

lemma send_to_dlq_subscriptions: "subscriptions (snd (send_to_dlq e m reason b)) = subscriptions b"
proof -
  obtain err b2 where p: "put_dlq e (dlq_stamped e (clock e (ticks b)) reason m) (tick b) = (err, b2)"
    by (cases "put_dlq e (dlq_stamped e (clock e (ticks b)) reason m) (tick b)")
  have "subscriptions b2 = subscriptions b"
    using put_dlq_subscriptions [of e "dlq_stamped e (clock e (ticks b)) reason m" "tick b"] p
    by (simp add: tick_def)
  then show ?thesis
    using p by (simp add: send_to_dlq_def Let_def dlq_stamped_def now_def
        split: option.splits error.splits)
qed

lemma handle_delivery_failure_subscriptions:
  "subscriptions (snd (handle_delivery_failure e m reason b)) = subscriptions b"
  by (simp add: handle_delivery_failure_def Let_def put_main_subscriptions
      send_to_dlq_subscriptions sleep_def)

lemma matching_subs_filter:
  "matching_subs subs m = Inr matching \<Longrightarrow> matching = filter (\<lambda>s. matches s m = Inr True) subs"
  by (induction subs arbitrary: matching) (auto split: sum.splits if_splits)


lemma deliver_each_keys: "map fst (fst (deliver_each e m subs k)) = map fst subs"
  by (induction subs arbitrary: k) (auto simp: case_prod_unfold)

lemma deliver_each_unmatched:
  "map_of subs sid = Some sub \<Longrightarrow> matches sub m \<noteq> Inr True
     \<Longrightarrow> map_of (fst (deliver_each e m subs k)) sid = Some sub"
  by (induction subs arbitrary: k) (auto simp: case_prod_unfold)

lemma deliver_each_matched:
  "map_of subs sid = Some sub \<Longrightarrow> matches sub m = Inr True
     \<Longrightarrow> \<exists>t. map_of (fst (deliver_each e m subs k)) sid
               = Some (snd (deliver_to_subscriber t m sub))"
proof (induction subs arbitrary: k)
  case Nil
  then show ?case by simp
next
  case (Cons a subs)
  obtain sid' sub' where a: "a = (sid', sub')" by (cases a)
  show ?case
  proof (cases "sid' = sid")
    case True
    then have "sub' = sub" using Cons.prems a by simp
    then have "map_of (fst (deliver_each e m (a # subs) k)) sid
                 = Some (snd (deliver_to_subscriber (clock e k) m sub))"
      using a True Cons.prems(2) by (simp add: case_prod_unfold)
    then show ?thesis by blast
  next
    case False
    then have r: "map_of subs sid = Some sub" using Cons.prems a by simp
    have "\<exists>k'. map_of (fst (deliver_each e m (a # subs) k)) sid
                 = map_of (fst (deliver_each e m subs k')) sid"
      using a False by (auto simp: case_prod_unfold)
    then show ?thesis using Cons.IH [OF r Cons.prems(2)] by metis
  qed
qed


section \<open>Claims about matching and fan-out\<close>





lemma deliver_each_no_match:
  "filter (\<lambda>s. matches s m = Inr True) (map snd subs) = []
     \<Longrightarrow> deliver_each e m subs k = (subs, 0, k)"
  by (induction subs arbitrary: k) (auto split: if_splits)

lemma deliver_message_no_match:
  assumes "matching_subs (map snd (subscriptions b)) m = Inr []"
  shows "deliver_message e m b =
           handle_delivery_failure e m
             (if truthy (recipient m)
              then ''No subscriber found for recipient: ''
                     @ (case recipient m of None \<Rightarrow> [] | Some r \<Rightarrow> r)
              else ''No successful deliveries'')
             (tick b)"
proof -
  have "filter (\<lambda>s. matches s m = Inr True) (map snd (subscriptions b)) = []"
    using matching_subs_filter [OF assms] by simp
  then have d: "deliver_each e m (subscriptions b) (Suc (ticks b)) = (subscriptions b, 0, Suc (ticks b))"
    by (rule deliver_each_no_match)
  have "(tick b)\<lparr>subscriptions := subscriptions b, ticks := Suc (ticks b)\<rparr> = tick b"
    by (simp add: tick_def)
  then show ?thesis
    using assms d by (simp add: deliver_message_def Let_def) (simp add: tick_def)
qed

lemma deliver_message_fan_out:
  assumes "matching_subs (map snd (subscriptions b)) m = Inr matching" and "matching \<noteq> []"
  shows "subscriptions (snd (deliver_message e m b))
           = fst (deliver_each e m (subscriptions b) (Suc (ticks b)))"
proof -
  obtain subs' n k where d: "deliver_each e m (subscriptions b) (Suc (ticks b)) = (subs', n, k)"
    by (cases "deliver_each e m (subscriptions b) (Suc (ticks b))")
  show ?thesis
    using assms d
    by (auto simp: deliver_message_def Let_def tick_def handle_delivery_failure_subscriptions
        update_avg_latency_def)
qed

lemma matches_ignores_recipient: "matches s (m\<lparr>recipient := r\<rparr>) = matches s m"
  by (cases "priority_threshold s") (simp_all add: matches_def message_topics_def)

text \<open>
  C7, as the code has it. Matching does not read the recipient: \<open>matches\<close> gives the same
  answer whatever the recipient of the message is. When no subscription's match raises
  on the message: if at least one subscription matches, \<open>_deliver_message\<close> calls the
  callback of every matching subscription once (its \<open>message_count\<close> or its
  \<open>error_count\<close> grows by one) and leaves every other subscription as it was, whatever
  the recipient; if none matches, the message goes to delivery-failure handling whether
  or not it has a recipient, and the recipient only selects the reason.
\<close>

theorem fan_out_ignores_recipient:
  "matches s (message\<lparr>recipient := r\<rparr>) = matches s message
   \<and> (matching_subs (map snd (subscriptions b)) message = Inr matching \<longrightarrow>
        (matching \<noteq> [] \<longrightarrow>
           (\<forall>sid sub. map_of (subscriptions b) sid = Some sub \<longrightarrow>
              (\<exists>t. map_of (subscriptions (snd (deliver_message e message b))) sid =
                 Some (if matches sub message = Inr True then
                         (if callback sub message
                          then sub\<lparr>message_count := message_count sub + 1,
                                   last_message_time := Some t\<rparr>
                          else sub\<lparr>error_count := error_count sub + 1\<rparr>)
                       else sub))))
        \<and> (matching = [] \<longrightarrow>
             deliver_message e message b =
               handle_delivery_failure e message
                 (if truthy (recipient message)
                  then ''No subscriber found for recipient: ''
                         @ (case recipient message of None \<Rightarrow> [] | Some r \<Rightarrow> r)
                  else ''No successful deliveries'')
                 (tick b)))"
proof (intro conjI impI allI)
  show "matches s (message\<lparr>recipient := r\<rparr>) = matches s message"
    by (rule matches_ignores_recipient)
next
  fix sid sub
  assume ms: "matching_subs (map snd (subscriptions b)) message = Inr matching"
    and ne: "matching \<noteq> []" and s: "map_of (subscriptions b) sid = Some sub"
  have subs: "subscriptions (snd (deliver_message e message b))
                = fst (deliver_each e message (subscriptions b) (Suc (ticks b)))"
    using deliver_message_fan_out [OF ms ne] .
  show "\<exists>t. map_of (subscriptions (snd (deliver_message e message b))) sid =
                 Some (if matches sub message = Inr True then
                         (if callback sub message
                          then sub\<lparr>message_count := message_count sub + 1,
                                   last_message_time := Some t\<rparr>
                          else sub\<lparr>error_count := error_count sub + 1\<rparr>)
                       else sub)"
  proof (cases "matches sub message = Inr True")
    case True
    obtain t where "map_of (fst (deliver_each e message (subscriptions b) (Suc (ticks b)))) sid
                      = Some (snd (deliver_to_subscriber t message sub))"
      using deliver_each_matched [OF s True] by blast
    then show ?thesis using subs True by (auto simp: deliver_to_subscriber_def)
  next
    case False
    then show ?thesis using subs deliver_each_unmatched [OF s False] by simp
  qed
next
  assume ms: "matching_subs (map snd (subscriptions b)) message = Inr matching"
    and "matching = []"
  then show "deliver_message e message b =
              handle_delivery_failure e message
                (if truthy (recipient message)
                 then ''No subscriber found for recipient: ''
                        @ (case recipient message of None \<Rightarrow> [] | Some r \<Rightarrow> r)
                 else ''No successful deliveries'')
                (tick b)"
    using deliver_message_no_match by simp
qed

text \<open>The instance for C7: two subscriptions \<open>a\<close> and \<open>b\<close> without filters, a message
  addressed to \<open>a\<close>; no match raises, both match, and the callback of \<open>b\<close> is called as
  well.\<close>

theorem fan_out_ignores_recipient_witness:
  "matching_subs
     (map snd (subscriptions (subscribe ''b'' (\<lambda>m. True) None None None
                 (subscribe ''a'' (\<lambda>m. True) None None None (sample_bus 10 10)))))
     ((sample_message ''m'' NORMAL)\<lparr>recipient := Some ''a''\<rparr>)
     = Inr [MessageSubscription_init ''a'' (\<lambda>m. True) None None None,
            MessageSubscription_init ''b'' (\<lambda>m. True) None None None]
   \<and> (\<exists>s. map_of (subscriptions (snd (deliver_message sample_env
            ((sample_message ''m'' NORMAL)\<lparr>recipient := Some ''a''\<rparr>)
            (subscribe ''b'' (\<lambda>m. True) None None None
               (subscribe ''a'' (\<lambda>m. True) None None None (sample_bus 10 10)))))) ''b'' = Some s
      \<and> subscriber_id s = ''b'' \<and> message_count s = 1)"
proof -
  let ?m = "(sample_message ''m'' NORMAL)\<lparr>recipient := Some ''a''\<rparr>"
  let ?sa = "MessageSubscription_init ''a'' (\<lambda>m. True) None None None"
  let ?sb = "MessageSubscription_init ''b'' (\<lambda>m. True) None None None"
  let ?b = "subscribe ''b'' (\<lambda>m. True) None None None
              (subscribe ''a'' (\<lambda>m. True) None None None (sample_bus 10 10))"
  have subs: "subscriptions ?b = [(''a'', ?sa), (''b'', ?sb)]"
    by (simp add: subscribe_def sample_bus_eq)
  have ma: "matches ?sa ?m = Inr True" and mb: "matches ?sb ?m = Inr True"
    by (simp_all add: matches_def MessageSubscription_init_def)
  have ms: "matching_subs (map snd (subscriptions ?b)) ?m = Inr [?sa, ?sb]"
    by (simp add: subs ma mb)
  have l: "map_of (subscriptions ?b) ''b'' = Some ?sb" by (simp add: subs)
  have ne: "[?sa, ?sb] \<noteq> []" by simp
  note r = fan_out_ignores_recipient
             [where b = ?b and message = ?m and matching = "[?sa, ?sb]" and e = sample_env,
              THEN conjunct2, rule_format, OF ms, THEN conjunct1, rule_format, OF ne l]
  obtain t where "map_of (subscriptions (snd (deliver_message sample_env ?m ?b))) ''b'' =
      Some (if matches ?sb ?m = Inr True then
              (if callback ?sb ?m
               then ?sb\<lparr>message_count := message_count ?sb + 1, last_message_time := Some t\<rparr>
               else ?sb\<lparr>error_count := error_count ?sb + 1\<rparr>)
            else ?sb)"
    using r by blast
  then have "\<exists>s. map_of (subscriptions (snd (deliver_message sample_env ?m ?b))) ''b'' = Some s
      \<and> subscriber_id s = ''b'' \<and> message_count s = 1"
    by (simp add: mb) (simp add: MessageSubscription_init_def)
  then show ?thesis using ms by (rule conjI [rotated])
qed

text \<open>Against C7 as stated: a broadcast message (no recipient) that no subscription
  matches is not dropped silently. The failure is counted and the message is
  re-enqueued for a retry, as for a message with a recipient.\<close>

theorem broadcast_without_match_counterexample:
  "recipient (sample_message ''m'' NORMAL) = None
   \<and> subscriptions (sample_bus 10 10) = []
   \<and> messages_failed (metrics (snd (deliver_message sample_env (sample_message ''m'' NORMAL)
        (sample_bus 10 10)))) = 1
   \<and> map (\<lambda>(p, t, m). (msg_id m, retry_count m))
        (queue (main_queue (snd (deliver_message sample_env (sample_message ''m'' NORMAL)
           (sample_bus 10 10))))) = [(''m'', 1)]"
proof -
  let ?m = "sample_message ''m'' NORMAL" and ?b = "sample_bus 10 10"
  have s: "subscriptions ?b = []" by (simp add: sample_bus_eq)
  then have "matching_subs (map snd (subscriptions ?b)) ?m = Inr []" by simp
  then have d: "deliver_message sample_env ?m ?b
             = handle_delivery_failure sample_env ?m ''No successful deliveries'' (tick ?b)"
    using deliver_message_no_match [of ?b ?m sample_env] by (simp add: sample_message_def)
  have r: "should_retry ?m" by (simp add: should_retry_def sample_message_def)
  have p: "put (clock sample_env (ticks (tick ?b))) (increment_retry ?m) (main_queue (tick ?b))
             = (None, (main_queue ?b)\<lparr>queue := [(3, 1, ?m\<lparr>retry_count := 1\<rparr>)]\<rparr>)"
    by (simp add: increment_retry_def bus_eval)
  show ?thesis
    using s by (simp add: d handle_delivery_failure_retry [OF r p])
      (simp add: sample_message_def sample_bus_eq tick_def)
qed

section \<open>Claims about retry, expiry and dead letters\<close>




lemma singleton_list: "length xs = Suc 0 \<Longrightarrow> x \<in> set xs \<Longrightarrow> xs = [x]"
  by (cases xs) auto







section \<open>Expired and exhausted messages\<close>














section \<open>Replaying the dead-letter queue (MessageBus.replay\_dlq)\<close>

text \<open>\<open>publish\<close> does not touch the dead-letter queue, and a \<open>get\<close> that returns a
  message shortens the queue: the loop of \<open>replay_dlq\<close> ends.\<close>

lemma publish_dead_letter_queue:
  "dead_letter_queue (snd (publish e m validate b)) = dead_letter_queue b"
proof -
  have p: "\<And>b. dead_letter_queue (snd (put_main e m b)) = dead_letter_queue b"
    by (simp add: put_main_def tick_def split: prod.splits)
  have r: "\<And>b. dead_letter_queue (snd (run_validation e m b)) = dead_letter_queue b"
    by (simp add: run_validation_def tick_def)
  show ?thesis
  proof (cases "validate \<and> fst (run_validation e m (tick b)) \<noteq> []")
    case True
    then show ?thesis
      using r [of "tick b"]
      by (cases "run_validation e m (tick b)") (simp add: publish_def Let_def tick_def)
  next
    case False
    let ?b2 = "if validate then snd (run_validation e m (tick b)) else tick b"
    have d: "dead_letter_queue ?b2 = dead_letter_queue b"
      using r [of "tick b"] by (simp add: tick_def)
    have "dead_letter_queue (snd (put_main e m ?b2)) = dead_letter_queue b"
      using p [of ?b2] d by simp
    then show ?thesis using False
      by (cases "run_validation e m (tick b)"; cases "put_main e m ?b2";
          cases "fst (put_main e m ?b2)")
         (auto simp: publish_def Let_def tick_def split: error.splits)
  qed
qed

lemma get_dlq_shorter:
  assumes "get_dlq b = (None, Some m, b1)"
  shows "length (queue (dead_letter_queue b1)) < length (queue (dead_letter_queue b))"
proof -
  have ne: "queue (dead_letter_queue b) \<noteq> []"
    using assms by (auto simp: get_dlq_def get_empty)
  have "dead_letter_queue b1 = snd (snd (get (dead_letter_queue b)))"
    using assms by (auto simp: get_dlq_def split: prod.splits)
  then show ?thesis using get_length [OF ne] ne by simp
qed

lemma replay_measure:
  assumes "(None, y) = get_dlq b" and "(Some x2, ya) = y"
    and "(None, yb) = publish e m' False ya"
  shows "length (queue (dead_letter_queue yb)) < length (queue (dead_letter_queue b))"
proof -
  have "get_dlq b = (None, Some x2, ya)" using assms(1,2) by simp
  then have "length (queue (dead_letter_queue ya)) < length (queue (dead_letter_queue b))"
    by (rule get_dlq_shorter)
  moreover have "dead_letter_queue yb = dead_letter_queue ya"
    using publish_dead_letter_queue [of e m' False ya] assms(3) [symmetric] by simp
  ultimately show ?thesis by simp
qed

text \<open>
  \<open>replay_dlq\<close>: the loop, with its counter \<open>count\<close> as \<open>cnt\<close>.
  \<open>if limit and count >= limit\<close> is Python truthiness: the test is skipped when the
  limit is \<open>None\<close> and when it is \<open>0\<close>. An exception of \<open>get\<close> or of \<open>publish\<close>
  leaves the loop and the method.
\<close>

function replay_loop ::
  "env \<Rightarrow> int option \<Rightarrow> int \<Rightarrow> MessageBus \<Rightarrow> (error + int) \<times> MessageBus" where
  "replay_loop e limit cnt b =
     (if (case limit of None \<Rightarrow> False | Some l \<Rightarrow> l \<noteq> 0 \<and> cnt \<ge> l) then (Inr cnt, b)
      else
        (case get_dlq b of
           (Some err, r, b1) \<Rightarrow> (Inl err, b1)
         | (None, None, b1) \<Rightarrow> (Inr cnt, b1)
         | (None, Some message, b1) \<Rightarrow>
             (let m1 = message\<lparr>retry_count := 0\<rparr>;
                  m2 = m1\<lparr>metadata := dict_pop (metadata m1) ''dlq_reason''\<rparr>;
                  m3 = m2\<lparr>metadata := dict_pop (metadata m2) ''dlq_timestamp''\<rparr>
              in case publish e m3 False b1 of
                   (Some err, b2) \<Rightarrow> (Inl err, b2)
                 | (None, b2) \<Rightarrow> replay_loop e limit (cnt + 1) b2)))"
  by pat_completeness auto

termination
  apply (relation "measure (\<lambda>(e, limit, cnt, b). length (queue (dead_letter_queue b)))")
   apply simp
  apply (simp only: in_measure prod.case)
  apply (rule replay_measure, assumption, assumption, assumption)
  done

definition replay_dlq :: "env \<Rightarrow> int option \<Rightarrow> MessageBus \<Rightarrow> (error + int) \<times> MessageBus" where
  "replay_dlq e limit b = replay_loop e limit 0 b"

declare replay_loop.simps [simp del]

text \<open>What the loop does to a dead letter before it publishes it again.\<close>

definition replayed :: "StandardMessage \<Rightarrow> StandardMessage" where
  "replayed message =
     message\<lparr>retry_count := 0,
             metadata := dict_pop (dict_pop (metadata message) ''dlq_reason'') ''dlq_timestamp''\<rparr>"

lemma replayed_fields:
  "retry_count (replayed m) = 0"
  "map_of (metadata (replayed m)) ''dlq_reason'' = None"
  "map_of (metadata (replayed m)) ''dlq_timestamp'' = None"
  "msg_id (replayed m) = msg_id m"
  "priority (replayed m) = priority m"
  by (simp_all add: replayed_def)

lemma replay_loop_stop:
  "(case limit of None \<Rightarrow> False | Some l \<Rightarrow> l \<noteq> 0 \<and> cnt \<ge> l)
     \<Longrightarrow> replay_loop e limit cnt b = (Inr cnt, b)"
  by (simp add: replay_loop.simps)

lemma replay_loop_empty:
  "\<not> (case limit of None \<Rightarrow> False | Some l \<Rightarrow> l \<noteq> 0 \<and> cnt \<ge> l)
     \<Longrightarrow> queue (dead_letter_queue b) = [] \<Longrightarrow> replay_loop e limit cnt b = (Inr cnt, b)"
  by (simp add: replay_loop.simps get_dlq_def get_empty)

lemma replay_loop_step:
  assumes "\<not> (case limit of None \<Rightarrow> False | Some l \<Rightarrow> l \<noteq> 0 \<and> cnt \<ge> l)"
    and "get (dead_letter_queue b) = (None, Some m, q1)"
    and "publish e (replayed m) False (b\<lparr>dead_letter_queue := q1\<rparr>) = (None, b2)"
  shows "replay_loop e limit cnt b = replay_loop e limit (cnt + 1) b2"
  using assms by (subst replay_loop.simps) (simp add: get_dlq_def replayed_def)

lemma replay_loop_raises:
  assumes "\<not> (case limit of None \<Rightarrow> False | Some l \<Rightarrow> l \<noteq> 0 \<and> cnt \<ge> l)"
    and "get (dead_letter_queue b) = (None, Some m, q1)"
    and "publish e (replayed m) False (b\<lparr>dead_letter_queue := q1\<rparr>) = (Some x, b2)"
  shows "replay_loop e limit cnt b = (Inl x, b2)"
  using assms by (subst replay_loop.simps) (simp add: get_dlq_def replayed_def)

text \<open>\<open>pops n q\<close>: the messages that \<open>n\<close> successive calls of \<open>get\<close> return, and the queue
  they leave. \<open>republished e k ms\<close>: the entries that publishing \<open>ms\<close> again, one after
  the other from clock reading \<open>k\<close> on, adds to the main queue (\<open>publish\<close> without
  validation reads the clock four times, the second reading is the entry's timestamp).\<close>

fun pops :: "nat \<Rightarrow> PersistentQueue \<Rightarrow> StandardMessage list \<times> PersistentQueue" where
  "pops 0 q = ([], q)"
| "pops (Suc n) q =
     (case get q of
        (None, Some m, q') \<Rightarrow> (case pops n q' of (ms, q'') \<Rightarrow> (m # ms, q''))
      | _ \<Rightarrow> ([], q))"

fun republished :: "env \<Rightarrow> nat \<Rightarrow> StandardMessage list \<Rightarrow> entry list" where
  "republished e k [] = []"
| "republished e k (m # ms) =
     (real_of_int (priority_value (priority m)), clock e (k + 1), replayed m)
       # republished e (k + 4) ms"

text \<open>The bus is ready to replay \<open>n\<close> dead letters: the clock readings strictly
  increase, every entry of the main queue is stamped earlier than the current reading
  (so no republished entry ties with a queued one), no two different dead-letter entries
  tie on priority and timestamp (so no \<open>get\<close> raises), and the main queue has room for
  \<open>n\<close> more entries.\<close>

definition replay_ready :: "env \<Rightarrow> MessageBus \<Rightarrow> nat \<Rightarrow> bool" where
  "replay_ready e b n =
     (strict_mono (clock e)
      \<and> (\<forall>x\<in>set (queue (main_queue b)). fst (snd x) < clock e (ticks b))
      \<and> comparable (set (queue (dead_letter_queue b)))
      \<and> int (length (queue (main_queue b))) + int n \<le> max_size (main_queue b))"

lemma heappop_set: "set (snd (snd (heappop h))) \<subseteq> set h"
proof (cases "h = [] \<or> butlast h = []")
  case True
  then show ?thesis by (auto simp: heappop_def Let_def)
next
  case False
  let ?h0 = "(butlast h)[0 := last h]"
  have u: "set ?h0 \<subseteq> insert (last h) (set (butlast h))" by (rule set_update_subset_insert)
  have "set (butlast h) \<subseteq> set h" by (auto dest: in_set_butlastD)
  moreover have "last h \<in> set h" using False by simp
  ultimately have "insert (last h) (set (butlast h)) \<subseteq> set h" by simp
  then have s0: "set ?h0 \<subseteq> set h" using u by (rule order_trans [rotated])
  have "?h0 \<noteq> []" using False by simp
  then have "mset (snd (siftup ?h0 0)) = mset ?h0" by (rule siftup_mset)
  then have "set (snd (siftup ?h0 0)) = set ?h0" by (rule mset_eq_setD)
  then have "set (snd (siftup ?h0 0)) \<subseteq> set h" using s0 by simp
  then show ?thesis using False
    by (cases "siftup ?h0 0"; cases "fst (siftup ?h0 0)") (simp_all add: heappop_def Let_def)
qed

lemma heappop_Some:
  "h \<noteq> [] \<Longrightarrow> fst (heappop h) = None
     \<Longrightarrow> fst (snd (heappop h)) = Some (if butlast h = [] then last h else butlast h ! 0)"
  by (cases "siftup ((butlast h)[0 := last h]) 0"; cases "fst (siftup ((butlast h)[0 := last h]) 0)")
     (simp_all add: heappop_def Let_def split: if_splits)

lemma get_pop:
  assumes "comparable (set (queue q))" and "queue q \<noteq> []"
  shows "\<exists>m q1. get q = (None, Some m, q1) \<and> comparable (set (queue q1))
           \<and> length (queue q1) = length (queue q) - 1"
proof -
  have n: "fst (get q) = None" using assms(1) by (rule get_no_error)
  then have hn: "fst (heappop (queue q)) = None" using get_queue [OF assms(2)] by simp
  obtain x where x: "fst (snd (heappop (queue q))) = Some x"
    using heappop_Some [OF assms(2) hn] by blast
  obtain r q1 where g: "get q = (None, r, q1)" using n by (cases "get q") auto
  have "r = map_option (\<lambda>(p, t, message). message) (fst (snd (heappop (queue q))))"
    using get_queue [OF assms(2)] g by simp
  then have r: "r = Some (snd (snd x))" using x by (simp add: case_prod_unfold)
  have "queue q1 = snd (snd (heappop (queue q)))" using get_queue [OF assms(2)] g by simp
  then have "set (queue q1) \<subseteq> set (queue q)" using heappop_set [of "queue q"] by simp
  then have c: "comparable (set (queue q1))" using assms(1) unfolding comparable_def by blast
  have "length (queue q1) = length (queue q) - 1"
    using get_length [OF assms(2)] g by simp
  then show ?thesis using g r c by blast
qed

lemma publish_accepts:
  assumes "accepts (main_queue b) m (clock e (Suc (ticks b)))"
  shows "\<exists>q'. publish e m False b =
           (None,
            b\<lparr>main_queue := q',
              ticks := ticks b + 4,
              metrics := (metrics b)\<lparr>messages_published := messages_published (metrics b) + 1\<rparr>,
              throughput_window := append_maxlen 60 (throughput_window b) (clock e (ticks b + 2)),
              latency_samples := append_maxlen 1000 (latency_samples b)
                ((clock e (ticks b + 3) - clock e (ticks b)) * 1000)\<rparr>)
         \<and> mset (queue q')
             = add_mset (real_of_int (priority_value (priority m)), clock e (Suc (ticks b)), m)
                 (mset (queue (main_queue b)))
         \<and> max_size q' = max_size (main_queue b)"
proof -
  obtain q' where p: "put (clock e (Suc (ticks b))) m (main_queue b) = (None, q')"
      "mset (queue q')
         = add_mset (real_of_int (priority_value (priority m)), clock e (Suc (ticks b)), m)
             (mset (queue (main_queue b)))"
      "max_size q' = max_size (main_queue b)"
    using put_accepts [OF assms] by blast
  have t: "put_tick m False b = Suc (ticks b)" by (simp add: put_tick_def)
  have "put (clock e (put_tick m False b)) m (main_queue b) = (None, q')"
    using p(1) t by simp
  then have "publish e m False b =
           (None,
            b\<lparr>main_queue := q',
              ticks := put_tick m False b + 3,
              metrics := (metrics b)\<lparr>messages_published := messages_published (metrics b) + 1\<rparr>,
              throughput_window := append_maxlen 60 (throughput_window b)
                (clock e (put_tick m False b + 1)),
              latency_samples := append_maxlen 1000 (latency_samples b)
                ((clock e (put_tick m False b + 2) - clock e (ticks b)) * 1000)\<rparr>)"
    by (rule publish_enqueues [rotated]) simp
  then show ?thesis using p(2,3) by (intro exI [of _ q']) (simp add: t eval_nat_numeral)
qed

lemma pops_Suc:
  "get q = (None, Some m, q1) \<Longrightarrow> pops (Suc n) q = (m # fst (pops n q1), snd (pops n q1))"
  by (simp add: case_prod_unfold)

lemma replay_loop_run:
  assumes "replay_ready e b n" and "n \<le> length (queue (dead_letter_queue b))"
    and "case limit of None \<Rightarrow> True | Some l \<Rightarrow> l = 0 \<or> cnt + int n \<le> l"
    and "n = length (queue (dead_letter_queue b))
         \<or> (case limit of None \<Rightarrow> False | Some l \<Rightarrow> l \<noteq> 0 \<and> cnt + int n \<ge> l)"
  shows "\<exists>b'. replay_loop e limit cnt b = (Inr (cnt + int n), b')
           \<and> length (fst (pops n (dead_letter_queue b))) = n
           \<and> mset (queue (main_queue b'))
               = mset (queue (main_queue b))
                 + mset (republished e (ticks b) (fst (pops n (dead_letter_queue b))))
           \<and> length (queue (dead_letter_queue b')) = length (queue (dead_letter_queue b)) - n
           \<and> messages_published (metrics b') = messages_published (metrics b) + int n
           \<and> ticks b' = ticks b + 4 * n"
  using assms
proof (induction n arbitrary: cnt b)
  case 0
  show ?case
  proof (cases "case limit of None \<Rightarrow> False | Some l \<Rightarrow> l \<noteq> 0 \<and> cnt \<ge> l")
    case True
    then show ?thesis by (simp add: replay_loop_stop)
  next
    case False
    then have "queue (dead_letter_queue b) = []"
      using "0.prems"(4) by (auto split: option.splits)
    then show ?thesis using False by (simp add: replay_loop_empty)
  qed
next
  case (Suc n)
  let ?d = "dead_letter_queue b"
  have go: "\<not> (case limit of None \<Rightarrow> False | Some l \<Rightarrow> l \<noteq> 0 \<and> cnt \<ge> l)"
    using Suc.prems(3) by (auto split: option.splits)
  have sm: "strict_mono (clock e)" and cd: "comparable (set (queue ?d))"
    and ts: "\<forall>x\<in>set (queue (main_queue b)). fst (snd x) < clock e (ticks b)"
    and room: "int (length (queue (main_queue b))) + int (Suc n) \<le> max_size (main_queue b)"
    using Suc.prems(1) by (simp_all add: replay_ready_def)
  have ne: "queue ?d \<noteq> []" using Suc.prems(2) by auto
  obtain m q1 where g: "get ?d = (None, Some m, q1)"
      "comparable (set (queue q1))" "length (queue q1) = length (queue ?d) - 1"
    using get_pop [OF cd ne] by blast
  let ?x = "(real_of_int (priority_value (priority (replayed m))), clock e (Suc (ticks b)),
            replayed m)"
  let ?b1 = "b\<lparr>dead_letter_queue := q1\<rparr>"
  have lt: "clock e (ticks b) < clock e (Suc (ticks b))"
    using sm by (simp add: strict_mono_def)
  have fresh: "\<forall>x\<in>set (queue (main_queue b)). key x \<noteq> key ?x"
    using ts lt by (fastforce simp: key_def)
  have "\<not> is_full (main_queue b)" using room by (simp add: is_full_def)
  then have "accepts (main_queue b) (replayed m) (clock e (Suc (ticks b)))"
    using fresh by (simp add: accepts_def key_def)
  then have acc: "accepts (main_queue ?b1) (replayed m) (clock e (Suc (ticks ?b1)))" by simp
  obtain q' where q': "publish e (replayed m) False ?b1 =
           (None,
            ?b1\<lparr>main_queue := q',
              ticks := ticks ?b1 + 4,
              metrics := (metrics ?b1)\<lparr>messages_published := messages_published (metrics ?b1) + 1\<rparr>,
              throughput_window := append_maxlen 60 (throughput_window ?b1) (clock e (ticks ?b1 + 2)),
              latency_samples := append_maxlen 1000 (latency_samples ?b1)
                ((clock e (ticks ?b1 + 3) - clock e (ticks ?b1)) * 1000)\<rparr>)"
      "mset (queue q') = add_mset
          (real_of_int (priority_value (priority (replayed m))), clock e (Suc (ticks ?b1)), replayed m)
          (mset (queue (main_queue ?b1)))"
      "max_size q' = max_size (main_queue ?b1)"
    using publish_accepts [OF acc] by blast
  define b2 where "b2 = snd (publish e (replayed m) False ?b1)"
  have p: "publish e (replayed m) False ?b1 = (None, b2)" by (simp add: b2_def q'(1))
  have f: "main_queue b2 = q'" "dead_letter_queue b2 = q1" "ticks b2 = ticks b + 4"
      "messages_published (metrics b2) = messages_published (metrics b) + 1"
    by (simp_all add: b2_def q'(1))
  have mq: "mset (queue q') = add_mset ?x (mset (queue (main_queue b)))"
    using q'(2) by simp
  then have "mset (queue q') = mset (?x # queue (main_queue b))" by simp
  then have sq: "set (queue q') = insert ?x (set (queue (main_queue b)))"
    by (metis mset_eq_setD list.simps(15))
  have lq: "length (queue q') = Suc (length (queue (main_queue b)))"
    using mq by (metis size_mset size_add_mset)
  have lt4: "clock e (ticks b) < clock e (ticks b + 4)" "clock e (Suc (ticks b)) < clock e (ticks b + 4)"
    using sm by (simp_all add: strict_mono_def)
  have ts2: "\<forall>x\<in>set (queue q'). fst (snd x) < clock e (ticks b + 4)"
    unfolding sq using ts lt4 by fastforce
  have "int (length (queue q')) + int n \<le> max_size q'"
    using room lq q'(3) by simp
  then have rd2: "replay_ready e b2 n"
    using sm g(2) ts2 by (simp add: replay_ready_def f)
  have n2: "n \<le> length (queue (dead_letter_queue b2))"
    using Suc.prems(2) g(3) by (simp add: f)
  have l2: "case limit of None \<Rightarrow> True | Some l \<Rightarrow> l = 0 \<or> (cnt + 1) + int n \<le> l"
    using Suc.prems(3) by (auto split: option.splits)
  have s2: "n = length (queue (dead_letter_queue b2))
         \<or> (case limit of None \<Rightarrow> False | Some l \<Rightarrow> l \<noteq> 0 \<and> (cnt + 1) + int n \<ge> l)"
    using Suc.prems(4) g(3) ne by (auto simp: f split: option.splits)
  obtain b' where r: "replay_loop e limit (cnt + 1) b2 = (Inr ((cnt + 1) + int n), b')"
      "length (fst (pops n (dead_letter_queue b2))) = n"
      "mset (queue (main_queue b'))
         = mset (queue (main_queue b2))
           + mset (republished e (ticks b2) (fst (pops n (dead_letter_queue b2))))"
      "length (queue (dead_letter_queue b')) = length (queue (dead_letter_queue b2)) - n"
      "messages_published (metrics b') = messages_published (metrics b2) + int n"
      "ticks b' = ticks b2 + 4 * n"
    using Suc.IH [OF rd2 n2 l2 s2] by blast
  have step: "replay_loop e limit cnt b = replay_loop e limit (cnt + 1) b2"
    using go g(1) p by (rule replay_loop_step)
  have ps: "pops (Suc n) ?d = (m # fst (pops n q1), snd (pops n q1))"
    using g(1) by (rule pops_Suc)
  have rp: "republished e (ticks b) (m # fst (pops n q1))
              = ?x # republished e (ticks b + 4) (fst (pops n q1))"
    by (simp add: replayed_fields)
  have c1: "replay_loop e limit cnt b = (Inr (cnt + int (Suc n)), b')"
    using step r(1) by simp
  have c3: "length (fst (pops (Suc n) ?d)) = Suc n"
    unfolding ps using r(2) by (simp add: f)
  have c4: "mset (queue (main_queue b'))
               = mset (queue (main_queue b)) + mset (republished e (ticks b) (fst (pops (Suc n) ?d)))"
    using r(3) mq unfolding ps fst_conv rp by (simp add: f)
  have c5: "length (queue (dead_letter_queue b')) = length (queue ?d) - Suc n"
    using r(4) g(3) by (simp add: f)
  have c6: "messages_published (metrics b') = messages_published (metrics b) + int (Suc n)"
    using r(5) by (simp add: f)
  have c7: "ticks b' = ticks b + 4 * Suc n"
    using r(6) by (simp add: f)
  show ?case using c1 c3 c4 c5 c6 c7 by blast
qed

lemma republished_reset:
  "\<forall>x\<in>set (republished e k ms).
     retry_count (snd (snd x)) = 0
     \<and> map_of (metadata (snd (snd x))) ''dlq_reason'' = None
     \<and> map_of (metadata (snd (snd x))) ''dlq_timestamp'' = None"
  by (induction ms arbitrary: k) (simp_all add: replayed_fields)

lemma republished_ids:
  "map (\<lambda>x. msg_id (snd (snd x))) (republished e k ms) = map msg_id ms"
  by (induction ms arbitrary: k) (simp_all add: replayed_fields)

text \<open>
  C9, as the code has it. Replaying an empty dead-letter queue returns 0 and leaves the
  bus (both queues, all metrics) unchanged, for every limit. For a limit that is absent
  or not 0, let \<open>n\<close> be the size of the dead-letter queue when the limit is absent, and
  the smaller of the limit (0 for a negative one) and that size otherwise. When the bus
  is ready to replay \<open>n\<close> entries (the clock readings strictly increase, every entry of
  the main queue is stamped earlier than the current reading, no two different
  dead-letter entries tie on priority and timestamp, and the main queue has room for
  \<open>n\<close> more entries), \<open>replay_dlq\<close> returns \<open>n\<close>; the dead-letter queue has \<open>n\<close> entries
  fewer; the main queue has \<open>n\<close> entries more and holds, for each of the \<open>n\<close> messages
  that \<open>n\<close> calls of \<open>get\<close> on the dead-letter queue return, an entry with that message
  (same id), its \<open>retry_count\<close> 0 and neither \<open>dlq_reason\<close> nor \<open>dlq_timestamp\<close> in its
  metadata; the messages are published without validation and \<open>messages_published\<close>
  grows by \<open>n\<close>.
\<close>

theorem replay_dlq_drains:
  "(queue (dead_letter_queue b) = [] \<longrightarrow> replay_dlq e limit b = (Inr 0, b))
   \<and> (limit \<noteq> Some 0
        \<and> n = (case limit of
                 None \<Rightarrow> length (queue (dead_letter_queue b))
               | Some l \<Rightarrow> min (nat l) (length (queue (dead_letter_queue b))))
        \<and> replay_ready e b n
      \<longrightarrow> (\<exists>b'. replay_dlq e limit b = (Inr (int n), b')
            \<and> length (queue (dead_letter_queue b')) = length (queue (dead_letter_queue b)) - n
            \<and> length (queue (main_queue b')) = length (queue (main_queue b)) + n
            \<and> length (fst (pops n (dead_letter_queue b))) = n
            \<and> set (republished e (ticks b) (fst (pops n (dead_letter_queue b))))
                 \<subseteq> set (queue (main_queue b'))
            \<and> map (\<lambda>x. msg_id (snd (snd x)))
                  (republished e (ticks b) (fst (pops n (dead_letter_queue b))))
                = map msg_id (fst (pops n (dead_letter_queue b)))
            \<and> (\<forall>x\<in>set (republished e (ticks b) (fst (pops n (dead_letter_queue b)))).
                  retry_count (snd (snd x)) = 0
                  \<and> map_of (metadata (snd (snd x))) ''dlq_reason'' = None
                  \<and> map_of (metadata (snd (snd x))) ''dlq_timestamp'' = None)
            \<and> messages_published (metrics b') = messages_published (metrics b) + int n))"
proof (intro conjI impI)
  assume "queue (dead_letter_queue b) = []"
  then show "replay_dlq e limit b = (Inr 0, b)"
    by (cases "case limit of None \<Rightarrow> False | Some l \<Rightarrow> l \<noteq> 0 \<and> 0 \<ge> l")
       (simp_all add: replay_dlq_def replay_loop_stop replay_loop_empty)
next
  let ?d = "dead_letter_queue b"
  let ?r = "republished e (ticks b) (fst (pops n ?d))"
  assume a: "limit \<noteq> Some 0
        \<and> n = (case limit of None \<Rightarrow> length (queue ?d) | Some l \<Rightarrow> min (nat l) (length (queue ?d)))
        \<and> replay_ready e b n"
  have "\<exists>b'. replay_loop e limit 0 b = (Inr (0 + int n), b')
           \<and> length (fst (pops n ?d)) = n
           \<and> mset (queue (main_queue b')) = mset (queue (main_queue b)) + mset ?r
           \<and> length (queue (dead_letter_queue b')) = length (queue ?d) - n
           \<and> messages_published (metrics b') = messages_published (metrics b) + int n
           \<and> ticks b' = ticks b + 4 * n"
  proof (cases "case limit of None \<Rightarrow> False | Some l \<Rightarrow> l < 0")
    case True
    then obtain l where l: "limit = Some l" "l < 0" by (auto split: option.splits)
    then have "n = 0" using a by simp
    moreover have "replay_loop e limit 0 b = (Inr 0, b)"
      using l by (simp add: replay_loop_stop)
    ultimately show ?thesis by simp
  next
    case False
    have r: "replay_ready e b n" using a by blast
    have n: "n \<le> length (queue ?d)" using a by (auto split: option.splits)
    have go: "case limit of None \<Rightarrow> True | Some l \<Rightarrow> l = 0 \<or> 0 + int n \<le> l"
      using a False by (auto split: option.splits)
    have stop: "n = length (queue ?d)
         \<or> (case limit of None \<Rightarrow> False | Some l \<Rightarrow> l \<noteq> 0 \<and> 0 + int n \<ge> l)"
      using a False by (auto split: option.splits)
    show ?thesis using r n go stop by (rule replay_loop_run)
  qed
  then obtain b' where b': "replay_loop e limit 0 b = (Inr (int n), b')"
      "length (fst (pops n ?d)) = n"
      "mset (queue (main_queue b')) = mset (queue (main_queue b)) + mset ?r"
      "length (queue (dead_letter_queue b')) = length (queue ?d) - n"
      "messages_published (metrics b') = messages_published (metrics b) + int n"
    by auto
  have "set_mset (mset (queue (main_queue b')))
          = set_mset (mset (queue (main_queue b))) \<union> set_mset (mset ?r)"
    unfolding b'(3) by simp
  then have sub: "set ?r \<subseteq> set (queue (main_queue b'))" by simp
  have "length ?r = n" using b'(2) republished_ids [of e "ticks b" "fst (pops n ?d)"]
    by (metis length_map)
  moreover have "size (mset (queue (main_queue b')))
                   = size (mset (queue (main_queue b))) + size (mset ?r)"
    unfolding b'(3) by simp
  ultimately have len: "length (queue (main_queue b')) = length (queue (main_queue b)) + n"
    by simp
  show "\<exists>b'. replay_dlq e limit b = (Inr (int n), b')
            \<and> length (queue (dead_letter_queue b')) = length (queue ?d) - n
            \<and> length (queue (main_queue b')) = length (queue (main_queue b)) + n
            \<and> length (fst (pops n ?d)) = n
            \<and> set ?r \<subseteq> set (queue (main_queue b'))
            \<and> map (\<lambda>x. msg_id (snd (snd x))) ?r = map msg_id (fst (pops n ?d))
            \<and> (\<forall>x\<in>set ?r.
                  retry_count (snd (snd x)) = 0
                  \<and> map_of (metadata (snd (snd x))) ''dlq_reason'' = None
                  \<and> map_of (metadata (snd (snd x))) ''dlq_timestamp'' = None)
            \<and> messages_published (metrics b') = messages_published (metrics b) + int n"
    using b'(1,2,4,5) sub len republished_reset [of e "ticks b" "fst (pops n ?d)"]
          republished_ids [of e "ticks b" "fst (pops n ?d)"]
    unfolding replay_dlq_def by (intro exI [of _ b']) simp
qed

text \<open>A bus with two dead letters, a CRITICAL one stamped 1 and a NORMAL one stamped 3
  (four clock readings have been made), and a bus whose main queue, of capacity 1, holds
  one message and whose dead-letter queue holds one dead letter (six readings).\<close>

definition two_dlq_bus :: MessageBus where
  "two_dlq_bus =
     snd (send_to_dlq sample_env (sample_message ''b'' NORMAL) ''boom''
       (snd (send_to_dlq sample_env (sample_message ''a'' CRITICAL) ''boom'' (sample_bus 10 10))))"

definition full_main_bus :: MessageBus where
  "full_main_bus =
     snd (send_to_dlq sample_env (sample_message ''old'' NORMAL) ''boom''
       (snd (publish sample_env (sample_message ''a'' NORMAL) False (sample_bus 1 10))))"

lemma two_dlq_bus_eq:
  "main_queue two_dlq_bus = main_queue (sample_bus 10 10)
   \<and> dead_letter_queue two_dlq_bus
       = (dead_letter_queue (sample_bus 10 10))
           \<lparr>queue := [(1, 1, dlq_stamped sample_env 0 ''boom'' (sample_message ''a'' CRITICAL)),
                      (3, 3, dlq_stamped sample_env 2 ''boom'' (sample_message ''b'' NORMAL))]\<rparr>
   \<and> ticks two_dlq_bus = 4"
  by (simp add: two_dlq_bus_def send_to_dlq_def dlq_stamped_def Let_def bus_eval)

lemma full_main_bus_eq:
  "main_queue full_main_bus
       = (main_queue (sample_bus 1 10))\<lparr>queue := [(3, 1, sample_message ''a'' NORMAL)]\<rparr>
   \<and> dead_letter_queue full_main_bus
       = (dead_letter_queue (sample_bus 1 10))
           \<lparr>queue := [(3, 5, dlq_stamped sample_env 4 ''boom'' (sample_message ''old'' NORMAL))]\<rparr>
   \<and> ticks full_main_bus = 6"
  by (simp add: full_main_bus_def send_to_dlq_def dlq_stamped_def Let_def bus_eval)

text \<open>The instances: on a fresh bus, whose dead-letter queue is empty, the replay returns
  0 and leaves the bus as it is; with the limit 1 on the bus with two dead letters, it
  returns 1, leaves one dead letter and puts the CRITICAL message into the main queue
  with \<open>retry_count\<close> 0 and no \<open>dlq_reason\<close>.\<close>

theorem replay_dlq_drains_witness:
  "replay_dlq sample_env None (sample_bus 10 10) = (Inr 0, sample_bus 10 10)
   \<and> replay_ready sample_env two_dlq_bus 1
   \<and> (\<exists>b'. replay_dlq sample_env (Some 1) two_dlq_bus = (Inr 1, b')
         \<and> length (queue (dead_letter_queue b')) = 1
         \<and> map (\<lambda>(p, t, m). (msg_id m, retry_count m, map_of (metadata m) ''dlq_reason''))
              (queue (main_queue b')) = [(''a'', 0, None)])"
proof -
  let ?a = "dlq_stamped sample_env 0 ''boom'' (sample_message ''a'' CRITICAL)"
  let ?d = "dead_letter_queue two_dlq_bus"
  note main = replay_dlq_drains
  have "queue (dead_letter_queue (sample_bus 10 10)) = []" by (simp add: sample_bus_eq)
  then have c1: "replay_dlq sample_env None (sample_bus 10 10) = (Inr 0, sample_bus 10 10)"
    using main [of "sample_bus 10 10" sample_env None, THEN conjunct1] by blast
  have sm: "strict_mono (clock sample_env)" by (simp add: sample_env_def strict_mono_def)
  have cmp: "comparable (set (queue ?d))"
    by (simp add: two_dlq_bus_eq comparable_def key_def)
  have rr: "replay_ready sample_env two_dlq_bus 1"
    using sm cmp by (simp add: replay_ready_def two_dlq_bus_eq sample_bus_eq)
  have dq: "?d = (dead_letter_queue (sample_bus 10 10))
                   \<lparr>queue := [(1, 1, ?a),
                              (3, 3, dlq_stamped sample_env 2 ''boom'' (sample_message ''b'' NORMAL))]\<rparr>"
    using two_dlq_bus_eq by simp
  have g: "fst (snd (get ?d)) = Some ?a \<and> fst (get ?d) = None"
    unfolding dq by (simp add: heap_eval sample_bus_eq)
  then have pp: "fst (pops 1 ?d) = [?a]"
    by (cases "get ?d") (simp add: case_prod_unfold)
  have n: "(1::nat) = (case Some (1::int) of
                 None \<Rightarrow> length (queue ?d)
               | Some l \<Rightarrow> min (nat l) (length (queue ?d)))"
    by (simp add: two_dlq_bus_eq)
  have h: "Some (1::int) \<noteq> Some 0" by simp
  obtain b' where r: "replay_dlq sample_env (Some 1) two_dlq_bus = (Inr (int 1), b')"
      "length (queue (dead_letter_queue b')) = length (queue ?d) - 1"
      "length (queue (main_queue b')) = length (queue (main_queue two_dlq_bus)) + 1"
      "set (republished sample_env (ticks two_dlq_bus) (fst (pops 1 ?d)))
         \<subseteq> set (queue (main_queue b'))"
    using main [of two_dlq_bus sample_env "Some 1" 1, THEN conjunct2, rule_format,
                OF conjI [OF h conjI [OF n rr]]]
    by blast
  have l: "length (queue (main_queue b')) = Suc 0"
    using r(3) by (simp add: two_dlq_bus_eq sample_bus_eq)
  have "(real_of_int (priority_value (priority ?a)), clock sample_env (ticks two_dlq_bus + 1),
         replayed ?a) \<in> set (queue (main_queue b'))"
    using r(4) unfolding pp by simp
  then have q: "queue (main_queue b')
            = [(real_of_int (priority_value (priority ?a)),
                clock sample_env (ticks two_dlq_bus + 1), replayed ?a)]"
    using l by (intro singleton_list)
  have m: "map (\<lambda>(p, t, m). (msg_id m, retry_count m, map_of (metadata m) ''dlq_reason''))
              (queue (main_queue b')) = [(''a'', 0, None)]"
    unfolding q by (simp add: replayed_fields dlq_stamped_fields sample_message_def)
  have d: "length (queue (dead_letter_queue b')) = 1"
    using r(2) by (simp add: two_dlq_bus_eq)
  have c3: "\<exists>b'. replay_dlq sample_env (Some 1) two_dlq_bus = (Inr 1, b')
         \<and> length (queue (dead_letter_queue b')) = 1
         \<and> map (\<lambda>(p, t, m). (msg_id m, retry_count m, map_of (metadata m) ''dlq_reason''))
              (queue (main_queue b')) = [(''a'', 0, None)]"
    using r(1) d m by (intro exI [of _ b']) simp
  show ?thesis using c1 rr c3 by (intro conjI)
qed

text \<open>Against C9 as stated: with the main queue at capacity, \<open>replay_dlq\<close> raises
  \<open>QueueOverflowError\<close> instead of returning a count, and the dead letter it had popped
  is in neither queue afterwards.\<close>

theorem replay_main_full_counterexample:
  "map (\<lambda>(p, t, m). msg_id m) (queue (dead_letter_queue full_main_bus)) = [''old'']
   \<and> fst (replay_dlq sample_env None full_main_bus) = Inl QueueOverflowError
   \<and> queue (dead_letter_queue (snd (replay_dlq sample_env None full_main_bus))) = []
   \<and> map (\<lambda>(p, t, m). msg_id m)
        (queue (main_queue (snd (replay_dlq sample_env None full_main_bus)))) = [''a'']"
proof -
  let ?old = "dlq_stamped sample_env 4 ''boom'' (sample_message ''old'' NORMAL)"
  let ?d = "dead_letter_queue full_main_bus"
  let ?q1 = "(dead_letter_queue (sample_bus 1 10))\<lparr>queue := []\<rparr>"
  let ?b1 = "full_main_bus\<lparr>dead_letter_queue := ?q1\<rparr>"
  have dq: "?d = (dead_letter_queue (sample_bus 1 10))\<lparr>queue := [(3, 5, ?old)]\<rparr>"
    using full_main_bus_eq by simp
  have g: "get ?d = (None, Some ?old, ?q1)"
    unfolding dq by (simp add: heap_eval sample_bus_eq)
  have go: "\<not> (case None of None \<Rightarrow> False | Some l \<Rightarrow> l \<noteq> 0 \<and> (0::int) \<ge> l)" by simp
  have "is_full (main_queue full_main_bus)"
    using full_main_bus_eq by (simp add: is_full_def sample_bus_eq)
  then have f: "is_full (main_queue ?b1)" by simp
  have v: "False \<longrightarrow> validate_message (serialize sample_env) (clock sample_env (Suc (ticks ?b1)))
                       (replayed ?old) = []" by simp
  have p: "publish sample_env (replayed ?old) False ?b1 =
           (Some QueueOverflowError,
            ?b1\<lparr>ticks := put_tick (replayed ?old) False ?b1 + 1,
              metrics := (metrics ?b1)\<lparr>queue_overflows := queue_overflows (metrics ?b1) + 1\<rparr>,
              latency_samples := append_maxlen 1000 (latency_samples ?b1)
                ((clock sample_env (put_tick (replayed ?old) False ?b1)
                    - clock sample_env (ticks ?b1)) * 1000)\<rparr>)"
    using v f by (rule publish_overflow)
  have r: "replay_dlq sample_env None full_main_bus =
           (Inl QueueOverflowError,
            ?b1\<lparr>ticks := put_tick (replayed ?old) False ?b1 + 1,
              metrics := (metrics ?b1)\<lparr>queue_overflows := queue_overflows (metrics ?b1) + 1\<rparr>,
              latency_samples := append_maxlen 1000 (latency_samples ?b1)
                ((clock sample_env (put_tick (replayed ?old) False ?b1)
                    - clock sample_env (ticks ?b1)) * 1000)\<rparr>)"
    unfolding replay_dlq_def using go g p by (rule replay_loop_raises)
  have i: "map (\<lambda>(p, t, m). msg_id m) (queue ?d) = [''old'']"
    using full_main_bus_eq by (simp add: dlq_stamped_fields sample_message_def)
  have m: "map (\<lambda>(p, t, m). msg_id m) (queue (main_queue full_main_bus)) = [''a'']"
    using full_main_bus_eq by (simp add: sample_message_def)
  show ?thesis unfolding r using i m by simp
qed

section \<open>Persistence and reload\<close>

text \<open>
  C8 on the persistence path. A HEARTBEAT message, a message of the base class that
  \<open>publish\<close> and \<open>put\<close> accept and that passes validation, is enqueued in a queue with
  a persistence path: \<open>put\<close> returns and the snapshot on disk holds the entry. A queue
  created on that file afterwards is empty: \<open>create_message\<close> raises \<open>ValueError\<close> on the
  stored dictionary, whose type \<open>heartbeat\<close> is not a key of \<open>type_map\<close>, whatever the
  constructors of the five subclasses do, and \<open>_load_from_disk\<close> skips the entry.
\<close>

theorem heartbeat_lost_on_reload:
  "msg_type (sample_message ''h'' NORMAL) = HEARTBEAT
   \<and> validate_message (serialize sample_env) 1 (sample_message ''h'' NORMAL) = []
   \<and> put 1 (sample_message ''h'' NORMAL)
         (PersistentQueue_init ctor ''main'' 10 (Some ''main.pkl'') None)
       = (None,
          \<lparr> name = ''main'', max_size = 10, persist_path = Some ''main.pkl'',
            queue = [(3, 1, sample_message ''h'' NORMAL)],
            stored = Some [(3, 1, model_dump (sample_message ''h'' NORMAL))] \<rparr>)
   \<and> create_message ctor (model_dump (sample_message ''h'' NORMAL))
       = Inl (ValueError ''Unknown message type'')
   \<and> queue (PersistentQueue_init ctor ''main'' 10 (Some ''main.pkl'')
              (Some [(3, 1, model_dump (sample_message ''h'' NORMAL))])) = []"
proof -
  let ?h = "sample_message ''h'' NORMAL"
  have t: "msg_type ?h = HEARTBEAT" by (simp add: sample_message_def)
  have v: "validate_message (serialize sample_env) 1 ?h = []"
    by (simp add: validate_message_def get_size_bytes_def sample_env_def sample_message_def
        is_expired_def)
  have q0: "PersistentQueue_init ctor ''main'' 10 (Some ''main.pkl'') None
              = \<lparr> name = ''main'', max_size = 10, persist_path = Some ''main.pkl'',
                  queue = [], stored = None \<rparr>"
    by (simp add: PersistentQueue_init_def load_from_disk_def)
  have p: "put 1 ?h (PersistentQueue_init ctor ''main'' 10 (Some ''main.pkl'') None)
       = (None,
          \<lparr> name = ''main'', max_size = 10, persist_path = Some ''main.pkl'',
            queue = [(3, 1, ?h)], stored = Some [(3, 1, model_dump ?h)] \<rparr>)"
    unfolding q0 by (simp add: heap_eval) (simp add: sample_message_def)
  have ty: "map_of (model_dump ?h) ''type'' = Some (PStr ''heartbeat'')"
    by (simp add: model_dump_def t)
  have c: "create_message ctor (model_dump ?h) = Inl (ValueError ''Unknown message type'')"
    by (simp add: create_message_def ty type_map_def)
  have r: "queue (PersistentQueue_init ctor ''main'' 10 (Some ''main.pkl'')
              (Some [(3, 1, model_dump ?h)])) = []"
    by (simp add: PersistentQueue_init_def load_from_disk_def c)
  show ?thesis using t v p c r by (intro conjI)
qed

end
